theory Spec2Isabelle
  imports Main "HOL-Library.Word"
begin

section \<open>The crypto context pool of crypto\_ctx.c\<close>

text \<open>
  The file keeps one global \<^verbatim>\<open>struct crypto_ctx_list\<close>: a spin lock, the counter
  \<^verbatim>\<open>avail_ctx\<close>, the list \<^verbatim>\<open>idle_ctx\<close> of idle contexts and a wait queue.
  The embedding models kernel pointers as natural numbers with \<open>0\<close> for \<^verbatim>\<open>NULL\<close>, the
  contexts as a store from pointers to structs (a context is shared between the pool
  and its callers), the engine handles as values owned by the slot that holds them,
  and everything the code asks of the rest of the kernel (the allocator, the crypto
  provider, the wait queue) as an oracle that is consumed and a trace that is extended.
  The code is the one compiled for kernels from 5.4.0 on, where the preprocessor
  removes the block cipher family.
\<close>

subsection \<open>Pointers, handles and contexts\<close>

type_synonym ptr = nat

definition NULL :: ptr where
  "NULL = 0"

text \<open>
  A transform pointer as the crypto provider returns it: \<^verbatim>\<open>NULL\<close>, an
  \<^verbatim>\<open>ERR_PTR\<close> value, or the address of a transform.
\<close>

datatype tfm_ptr = Tfm_NULL | Tfm_ERR | Tfm ptr

definition IS_ERR :: "tfm_ptr \<Rightarrow> bool" where
  "IS_ERR t = (t = Tfm_ERR)"

text \<open>\<^verbatim>\<open>struct shash_desc\<close>: the block \<^verbatim>\<open>kzalloc\<close> returned and its \<^verbatim>\<open>tfm\<close> field.\<close>

record shash_desc =
  shash_addr :: ptr
  tfm :: tfm_ptr

text \<open>
  \<^verbatim>\<open>struct cifsd_crypto_ctx\<close>, declared in crypto\_ctx.h: the arrays
  \<^verbatim>\<open>desc[CRYPTO_SHASH_MAX]\<close> and \<^verbatim>\<open>ccmaes[CRYPTO_AEAD_MAX]\<close> are lists of that
  length; an empty slot is \<open>None\<close> for a hash descriptor and \<open>Tfm_NULL\<close> for an AEAD
  transform. The \<^verbatim>\<open>list\<close> field is the membership in \<open>idle_ctx\<close> below.
\<close>

record cifsd_crypto_ctx =
  desc :: "shash_desc option list"
  ccmaes :: "tfm_ptr list"

text \<open>
  The enumeration constants of crypto\_ctx.h, which is not among the sources: they are
  a parameter of every function that uses them.
\<close>

record crypto_ctx_h =
  CRYPTO_SHASH_HMACMD5 :: int
  CRYPTO_SHASH_HMACSHA256 :: int
  CRYPTO_SHASH_CMACAES :: int
  CRYPTO_SHASH_SHA512 :: int
  CRYPTO_SHASH_MD4 :: int
  CRYPTO_SHASH_MD5 :: int
  CRYPTO_SHASH_MAX :: int
  CRYPTO_AEAD_AES128_GCM :: int
  CRYPTO_AEAD_AES128_CCM :: int
  CRYPTO_AEAD_MAX :: int

subsection \<open>The state\<close>

text \<open>What the code asks of the rest of the kernel, in the order it asks.\<close>

datatype event =
    Cifsd_alloc ptr
  | Cifsd_free ptr
  | Kzalloc ptr
  | Kfree ptr
  | Crypto_alloc_shash string tfm_ptr
  | Crypto_free_shash tfm_ptr
  | Crypto_alloc_aead string tfm_ptr
  | Crypto_free_aead tfm_ptr
  | Wake_up

text \<open>
  \<open>avail_ctx\<close> and \<open>idle_ctx\<close> are the fields of \<^verbatim>\<open>ctx_list\<close>. \<open>avail_ctx\<close> is a C
  \<^verbatim>\<open>int\<close>; the code compares it with \<^verbatim>\<open>num_online_cpus()\<close>, an
  \<^verbatim>\<open>unsigned int\<close>, so both are 32-bit words compared as unsigned numbers, which is
  the order of \<open>32 word\<close>. The head of \<open>idle_ctx\<close> is \<^verbatim>\<open>ctx_list.idle_ctx.next\<close>.
  \<open>ctx_mem\<close> holds the live contexts. \<open>heap_next\<close> lists the results of the coming
  calls of the allocator (\<^verbatim>\<open>cifsd_alloc\<close>, \<^verbatim>\<open>kzalloc\<close>) and \<open>tfm_next\<close> those of the
  crypto provider; an exhausted list is a failure. \<open>trace\<close> records the calls made.
\<close>

record kstate =
  avail_ctx :: "32 word"
  idle_ctx :: "ptr list"
  ctx_mem :: "ptr \<rightharpoonup> cifsd_crypto_ctx"
  heap_next :: "ptr list"
  tfm_next :: "tfm_ptr list"
  trace :: "event list"

definition emit :: "event \<Rightarrow> kstate \<Rightarrow> kstate" where
  "emit e s = s\<lparr>trace := trace s @ [e]\<rparr>"

text \<open>Dereferencing a context pointer; \<open>None\<close> where the pointer is \<^verbatim>\<open>NULL\<close> or dangling.\<close>

definition deref :: "kstate \<Rightarrow> ptr \<Rightarrow> cifsd_crypto_ctx option" where
  "deref s p = (if p = NULL then None else ctx_mem s p)"

subsection \<open>The kernel services\<close>

definition heap_alloc :: "kstate \<Rightarrow> ptr \<times> kstate" where
  "heap_alloc s =
     (case heap_next s of
        [] \<Rightarrow> (NULL, s)
      | p # ps \<Rightarrow> (p, s\<lparr>heap_next := ps\<rparr>))"

definition kzalloc :: "kstate \<Rightarrow> ptr \<times> kstate" where
  "kzalloc s = (case heap_alloc s of (p, s1) \<Rightarrow> (p, emit (Kzalloc p) s1))"

definition provider_alloc :: "kstate \<Rightarrow> tfm_ptr \<times> kstate" where
  "provider_alloc s =
     (case tfm_next s of
        [] \<Rightarrow> (Tfm_ERR, s)
      | t # ts \<Rightarrow> (t, s\<lparr>tfm_next := ts\<rparr>))"

definition crypto_alloc_shash :: "string \<Rightarrow> kstate \<Rightarrow> tfm_ptr \<times> kstate" where
  "crypto_alloc_shash name s =
     (case provider_alloc s of (t, s1) \<Rightarrow> (t, emit (Crypto_alloc_shash name t) s1))"

definition crypto_alloc_aead :: "string \<Rightarrow> kstate \<Rightarrow> tfm_ptr \<times> kstate" where
  "crypto_alloc_aead name s =
     (case provider_alloc s of (t, s1) \<Rightarrow> (t, emit (Crypto_alloc_aead name t) s1))"

text \<open>A context with every slot empty, the arrays as long as the header says.\<close>

definition empty_ctx :: "crypto_ctx_h \<Rightarrow> cifsd_crypto_ctx" where
  "empty_ctx h =
     \<lparr>desc = replicate (nat (CRYPTO_SHASH_MAX h)) None,
      ccmaes = replicate (nat (CRYPTO_AEAD_MAX h)) Tfm_NULL\<rparr>"

text \<open>
  Modelled from the spec: \<^verbatim>\<open>cifsd_alloc\<close> of buffer\_pool.c, which is not among the
  sources. A context is "created empty by the Context Pool": the block it returns
  has every slot empty; \<^verbatim>\<open>NULL\<close> is the failure.
\<close>

definition cifsd_alloc :: "crypto_ctx_h \<Rightarrow> kstate \<Rightarrow> ptr \<times> kstate" where
  "cifsd_alloc h s =
     (case heap_alloc s of (p, s1) \<Rightarrow>
        if p = NULL then (NULL, emit (Cifsd_alloc NULL) s1)
        else (p, emit (Cifsd_alloc p) (s1\<lparr>ctx_mem := (ctx_mem s1)(p \<mapsto> empty_ctx h)\<rparr>)))"

subsection \<open>Freeing and allocating handles\<close>

definition free_aead :: "tfm_ptr \<Rightarrow> kstate \<Rightarrow> kstate" where
  "free_aead aead s = (if aead \<noteq> Tfm_NULL then emit (Crypto_free_aead aead) s else s)"

definition free_shash :: "shash_desc option \<Rightarrow> kstate \<Rightarrow> kstate" where
  "free_shash shash s =
     (case shash of
        None \<Rightarrow> s
      | Some d \<Rightarrow> emit (Kfree (shash_addr d)) (emit (Crypto_free_shash (tfm d)) s))"

definition alloc_aead :: "crypto_ctx_h \<Rightarrow> int \<Rightarrow> kstate \<Rightarrow> tfm_ptr \<times> kstate" where
  "alloc_aead h idx s =
     (case (if idx = CRYPTO_AEAD_AES128_GCM h then crypto_alloc_aead ''gcm(aes)'' s
            else if idx = CRYPTO_AEAD_AES128_CCM h then crypto_alloc_aead ''ccm(aes)'' s
            else (Tfm_NULL, s)) of
        (t, s1) \<Rightarrow> if IS_ERR t then (Tfm_NULL, s1) else (t, s1))"

text \<open>
  \<^verbatim>\<open>alloc_shash_desc\<close> reads \<^verbatim>\<open>crypto_shash_descsize(tfm)\<close> before it allocates the
  descriptor: with an identifier that no case of the switch names, \<^verbatim>\<open>tfm\<close> is still
  \<^verbatim>\<open>NULL\<close> there and the kernel faults. \<open>None\<close> is that: the call does not return.
\<close>

definition alloc_shash_desc ::
  "crypto_ctx_h \<Rightarrow> int \<Rightarrow> kstate \<Rightarrow> (shash_desc option \<times> kstate) option" where
  "alloc_shash_desc h idx s =
     (case (if idx = CRYPTO_SHASH_HMACMD5 h then crypto_alloc_shash ''hmac(md5)'' s
            else if idx = CRYPTO_SHASH_HMACSHA256 h then crypto_alloc_shash ''hmac(sha256)'' s
            else if idx = CRYPTO_SHASH_CMACAES h then crypto_alloc_shash ''cmac(aes)'' s
            else if idx = CRYPTO_SHASH_SHA512 h then crypto_alloc_shash ''sha512'' s
            else if idx = CRYPTO_SHASH_MD4 h then crypto_alloc_shash ''md4'' s
            else if idx = CRYPTO_SHASH_MD5 h then crypto_alloc_shash ''md5'' s
            else (Tfm_NULL, s)) of
        (t, s1) \<Rightarrow>
          if IS_ERR t then Some (None, s1)
          else if t = Tfm_NULL then None
          else (case kzalloc s1 of (p, s2) \<Rightarrow>
                  if p = NULL then Some (None, emit (Crypto_free_shash t) s2)
                  else Some (Some \<lparr>shash_addr = p, tfm = t\<rparr>, s2)))"

subsection \<open>Contexts\<close>

definition ctx_alloc :: "crypto_ctx_h \<Rightarrow> kstate \<Rightarrow> ptr \<times> kstate" where
  "ctx_alloc h s = cifsd_alloc h s"

text \<open>
  \<^verbatim>\<open>ctx_free\<close> walks both arrays from index 0 and then frees the context. It reads
  the context, so a \<^verbatim>\<open>NULL\<close> or dangling pointer is a fault (\<open>None\<close>).
\<close>

definition ctx_free :: "ptr \<Rightarrow> kstate \<Rightarrow> kstate option" where
  "ctx_free ctx s =
     (case deref s ctx of
        None \<Rightarrow> None
      | Some c \<Rightarrow>
          Some (emit (Cifsd_free ctx)
                  ((fold free_aead (ccmaes c) (fold free_shash (desc c) s))
                     \<lparr>ctx_mem := (ctx_mem s)(ctx := None)\<rparr>)))"

subsection \<open>Acquire: \<^verbatim>\<open>cifsd_find_crypto_ctx\<close>\<close>

text \<open>
  The loop of \<^verbatim>\<open>cifsd_find_crypto_ctx\<close> is cut at the places where the caller does
  not hold \<^verbatim>\<open>ctx_lock\<close>, so that other callers can run in between:
  \<^item> \<open>At_lock\<close>: the top of the loop, before \<^verbatim>\<open>spin_lock\<close>;
  \<^item> \<open>At_alloc\<close>: the counter is incremented and the lock released, before
    \<^verbatim>\<open>ctx_alloc\<close>;
  \<^item> \<open>At_wait\<close>: in one of the two \<^verbatim>\<open>wait_event\<close> calls, before \<^verbatim>\<open>continue\<close>;
  \<^item> \<open>Returned ctx\<close>: the function has returned \<open>ctx\<close>.
  What \<^verbatim>\<open>num_online_cpus()\<close> returns is a parameter of the step that reads it.
\<close>

datatype find_pc = At_lock | At_alloc | At_wait | Returned ptr

text \<open>The section under the lock: from \<^verbatim>\<open>spin_lock\<close> to the matching \<^verbatim>\<open>spin_unlock\<close>.\<close>

definition find_locked :: "32 word \<Rightarrow> kstate \<Rightarrow> find_pc \<times> kstate" where
  "find_locked num_online_cpus s =
     (case idle_ctx s of
        ctx # rest \<Rightarrow> (Returned ctx, s\<lparr>idle_ctx := rest\<rparr>)
      | [] \<Rightarrow>
          if avail_ctx s > num_online_cpus then (At_wait, s)
          else (At_alloc, s\<lparr>avail_ctx := avail_ctx s + 1\<rparr>))"

text \<open>\<^verbatim>\<open>ctx_alloc\<close> and what follows it.\<close>

definition find_alloc :: "crypto_ctx_h \<Rightarrow> kstate \<Rightarrow> find_pc \<times> kstate" where
  "find_alloc h s =
     (case ctx_alloc h s of (ctx, s1) \<Rightarrow>
        if ctx = NULL then (At_wait, s1\<lparr>avail_ctx := avail_ctx s1 - 1\<rparr>)
        else (Returned ctx, s1))"

text \<open>
  \<^verbatim>\<open>wait_event(ctx_list.ctx_wait, !list_empty(&ctx_list.idle_ctx))\<close> returns once
  the list is not empty; until then the caller sleeps.
\<close>

definition find_wait :: "kstate \<Rightarrow> find_pc \<times> kstate" where
  "find_wait s = (if idle_ctx s \<noteq> [] then (At_lock, s) else (At_wait, s))"

fun find_step :: "crypto_ctx_h \<Rightarrow> 32 word \<Rightarrow> find_pc \<Rightarrow> kstate \<Rightarrow> find_pc \<times> kstate" where
  "find_step h n At_lock s = find_locked n s"
| "find_step h n At_alloc s = find_alloc h s"
| "find_step h n At_wait s = find_wait s"
| "find_step h n (Returned ctx) s = (Returned ctx, s)"

text \<open>
  The whole call with no other caller running and the number of processors fixed: the
  steps follow each other until the function returns. A caller that sleeps on an empty
  list is never woken then, and the call does not return: its value is \<open>None\<close>.
\<close>

partial_function (option) find_loop ::
  "crypto_ctx_h \<Rightarrow> 32 word \<Rightarrow> find_pc \<Rightarrow> kstate \<Rightarrow> (ptr \<times> kstate) option" where
  "find_loop h n pc s =
     (case pc of
        Returned ctx \<Rightarrow> Some (ctx, s)
      | _ \<Rightarrow> (case find_step h n pc s of (pc', s') \<Rightarrow> find_loop h n pc' s'))"

declare find_loop.simps [code]

definition cifsd_find_crypto_ctx ::
  "crypto_ctx_h \<Rightarrow> 32 word \<Rightarrow> kstate \<Rightarrow> (ptr \<times> kstate) option" where
  "cifsd_find_crypto_ctx h n s = find_loop h n At_lock s"

subsection \<open>Release: \<^verbatim>\<open>cifsd_release_crypto_ctx\<close>\<close>

definition cifsd_release_crypto_ctx :: "32 word \<Rightarrow> ptr \<Rightarrow> kstate \<Rightarrow> kstate option" where
  "cifsd_release_crypto_ctx num_online_cpus ctx s =
     (if ctx = NULL then Some s
      else if avail_ctx s \<le> num_online_cpus
        then Some (emit Wake_up (s\<lparr>idle_ctx := ctx # idle_ctx s\<rparr>))
      else ctx_free ctx (s\<lparr>avail_ctx := avail_ctx s - 1\<rparr>))"

subsection \<open>The per-algorithm lookups\<close>

text \<open>
  The slot access of \<^verbatim>\<open>____crypto_shash_ctx_find\<close>, from the test of
  \<^verbatim>\<open>ctx->desc[id]\<close> to the assignment of what \<^verbatim>\<open>alloc_shash_desc\<close> returned: the
  spec's \<^verbatim>\<open>ensure\<close>. It gives the value of \<^verbatim>\<open>ctx->desc[id]\<close> afterwards. The check
  before it bounds \<^verbatim>\<open>id\<close> from above only; a negative index, like a \<^verbatim>\<open>NULL\<close> or
  dangling context, is undefined in C and \<open>None\<close> here.
\<close>

definition crypto_shash_ctx_slot ::
  "crypto_ctx_h \<Rightarrow> int \<Rightarrow> ptr \<Rightarrow> kstate \<Rightarrow> (shash_desc option \<times> kstate) option" where
  "crypto_shash_ctx_slot h idx ctx s =
     (case deref s ctx of
        None \<Rightarrow> None
      | Some c \<Rightarrow>
          if idx < 0 \<or> length (desc c) \<le> nat idx then None
          else if desc c ! nat idx \<noteq> None then Some (desc c ! nat idx, s)
          else (case alloc_shash_desc h idx s of
                  None \<Rightarrow> None
                | Some (d, s1) \<Rightarrow>
                    Some (d, s1\<lparr>ctx_mem := (ctx_mem s1)(ctx \<mapsto>
                                   c\<lparr>desc := (desc c)[nat idx := d]\<rparr>)\<rparr>)))"

text \<open>\<^verbatim>\<open>____crypto_shash_ctx_find\<close>; an Isabelle name cannot start with an underscore.\<close>

definition crypto_shash_ctx_find ::
  "crypto_ctx_h \<Rightarrow> 32 word \<Rightarrow> int \<Rightarrow> kstate \<Rightarrow> (ptr \<times> kstate) option" where
  "crypto_shash_ctx_find h n idx s =
     (if idx \<ge> CRYPTO_SHASH_MAX h then Some (NULL, s)
      else (case cifsd_find_crypto_ctx h n s of
              None \<Rightarrow> None
            | Some (ctx, s1) \<Rightarrow>
                (case crypto_shash_ctx_slot h idx ctx s1 of
                   None \<Rightarrow> None
                 | Some (d, s2) \<Rightarrow>
                     if d \<noteq> None then Some (ctx, s2)
                     else (case cifsd_release_crypto_ctx n ctx s2 of
                             None \<Rightarrow> None
                           | Some s3 \<Rightarrow> Some (NULL, s3)))))"

text \<open>The same for the AEAD family: \<^verbatim>\<open>ctx->ccmaes[id]\<close> and \<^verbatim>\<open>alloc_aead\<close>.\<close>

definition crypto_aead_ctx_slot ::
  "crypto_ctx_h \<Rightarrow> int \<Rightarrow> ptr \<Rightarrow> kstate \<Rightarrow> (tfm_ptr \<times> kstate) option" where
  "crypto_aead_ctx_slot h idx ctx s =
     (case deref s ctx of
        None \<Rightarrow> None
      | Some c \<Rightarrow>
          if idx < 0 \<or> length (ccmaes c) \<le> nat idx then None
          else if ccmaes c ! nat idx \<noteq> Tfm_NULL then Some (ccmaes c ! nat idx, s)
          else (case alloc_aead h idx s of
                  (t, s1) \<Rightarrow>
                    Some (t, s1\<lparr>ctx_mem := (ctx_mem s1)(ctx \<mapsto>
                                   c\<lparr>ccmaes := (ccmaes c)[nat idx := t]\<rparr>)\<rparr>)))"

definition crypto_aead_ctx_find ::
  "crypto_ctx_h \<Rightarrow> 32 word \<Rightarrow> int \<Rightarrow> kstate \<Rightarrow> (ptr \<times> kstate) option" where
  "crypto_aead_ctx_find h n idx s =
     (if idx \<ge> CRYPTO_AEAD_MAX h then Some (NULL, s)
      else (case cifsd_find_crypto_ctx h n s of
              None \<Rightarrow> None
            | Some (ctx, s1) \<Rightarrow>
                (case crypto_aead_ctx_slot h idx ctx s1 of
                   None \<Rightarrow> None
                 | Some (t, s2) \<Rightarrow>
                     if t \<noteq> Tfm_NULL then Some (ctx, s2)
                     else (case cifsd_release_crypto_ctx n ctx s2 of
                             None \<Rightarrow> None
                           | Some s3 \<Rightarrow> Some (NULL, s3)))))"

subsection \<open>The life cycle\<close>

text \<open>
  \<^verbatim>\<open>ctx_free\<close> leaves the list alone, so each round of the loop of
  \<^verbatim>\<open>cifsd_crypto_destroy\<close> shortens it; the loop stops early, with \<open>None\<close>, only
  where \<^verbatim>\<open>ctx_free\<close> faults.
\<close>

lemma idle_ctx_emit: "idle_ctx (emit e s) = idle_ctx s"
  by (simp add: emit_def)

lemma idle_ctx_free_shash: "idle_ctx (free_shash d s) = idle_ctx s"
  by (simp add: free_shash_def idle_ctx_emit split: option.splits)

lemma idle_ctx_free_aead: "idle_ctx (free_aead t s) = idle_ctx s"
  by (simp add: free_aead_def idle_ctx_emit)

lemma idle_ctx_fold_free_shash: "idle_ctx (fold free_shash ds s) = idle_ctx s"
  by (induction ds arbitrary: s) (simp_all add: idle_ctx_free_shash)

lemma idle_ctx_fold_free_aead: "idle_ctx (fold free_aead ts s) = idle_ctx s"
  by (induction ts arbitrary: s) (simp_all add: idle_ctx_free_aead)

lemma idle_ctx_ctx_free: "ctx_free ctx s = Some s' \<Longrightarrow> idle_ctx s' = idle_ctx s"
  by (auto simp: ctx_free_def idle_ctx_emit idle_ctx_fold_free_shash idle_ctx_fold_free_aead
      split: option.splits)

function cifsd_crypto_destroy :: "kstate \<Rightarrow> kstate option" where
  "cifsd_crypto_destroy s =
     (case idle_ctx s of
        [] \<Rightarrow> Some s
      | ctx # rest \<Rightarrow>
          (case ctx_free ctx (s\<lparr>idle_ctx := rest\<rparr>) of
             None \<Rightarrow> None
           | Some s' \<Rightarrow> cifsd_crypto_destroy s'))"
  by pat_completeness auto
termination
  by (relation "measure (\<lambda>s. length (idle_ctx s))") (auto dest: idle_ctx_ctx_free)

declare cifsd_crypto_destroy.simps [simp del]

definition ENOMEM :: int where
  "ENOMEM = 12"

definition cifsd_crypto_create :: "crypto_ctx_h \<Rightarrow> kstate \<Rightarrow> int \<times> kstate" where
  "cifsd_crypto_create h s =
     (case ctx_alloc h (s\<lparr>idle_ctx := [], avail_ctx := 1\<rparr>) of
        (ctx, s1) \<Rightarrow>
          if ctx = NULL then (- ENOMEM, s1)
          else (0, s1\<lparr>idle_ctx := ctx # idle_ctx s1\<rparr>))"

subsection \<open>Several callers\<close>

text \<open>
  A caller is outside the pool's functions or inside \<^verbatim>\<open>cifsd_find_crypto_ctx\<close>; one
  that has returned from it holds the context until it releases it. An action lets
  one caller run up to the next place where it does not hold the lock:
  \<open>Call_find t\<close> enters \<^verbatim>\<open>cifsd_find_crypto_ctx\<close>, \<open>Step t\<close> runs its next step, and
  \<open>Call_release t\<close> passes the context held to \<^verbatim>\<open>cifsd_release_crypto_ctx\<close>. An
  action that the caller cannot take leaves the system as it is; a fault stops it.
\<close>

datatype caller = Outside | In_find find_pc

datatype action = Call_find nat | Step nat | Call_release nat

record system =
  kernel :: kstate
  callers :: "caller list"

definition sys_step :: "crypto_ctx_h \<Rightarrow> 32 word \<Rightarrow> action \<Rightarrow> system \<Rightarrow> system option" where
  "sys_step h n a cfg =
     (case a of
        Call_find t \<Rightarrow>
          if t < length (callers cfg) \<and> callers cfg ! t = Outside
          then Some (cfg\<lparr>callers := (callers cfg)[t := In_find At_lock]\<rparr>)
          else Some cfg
      | Step t \<Rightarrow>
          if t < length (callers cfg) then
            (case callers cfg ! t of
               Outside \<Rightarrow> Some cfg
             | In_find pc \<Rightarrow>
                 (case find_step h n pc (kernel cfg) of
                    (pc', s') \<Rightarrow>
                      Some \<lparr>kernel = s', callers = (callers cfg)[t := In_find pc']\<rparr>))
          else Some cfg
      | Call_release t \<Rightarrow>
          if t < length (callers cfg) then
            (case callers cfg ! t of
               In_find (Returned ctx) \<Rightarrow>
                 (case cifsd_release_crypto_ctx n ctx (kernel cfg) of
                    None \<Rightarrow> None
                  | Some s' \<Rightarrow> Some \<lparr>kernel = s', callers = (callers cfg)[t := Outside]\<rparr>)
             | _ \<Rightarrow> Some cfg)
          else Some cfg)"

fun run :: "crypto_ctx_h \<Rightarrow> 32 word \<Rightarrow> action list \<Rightarrow> system \<Rightarrow> system option" where
  "run h n [] cfg = Some cfg"
| "run h n (a # as) cfg =
     (case sys_step h n a cfg of
        None \<Rightarrow> None
      | Some cfg' \<Rightarrow> run h n as cfg')"

text \<open>The system after \<^verbatim>\<open>cifsd_crypto_create\<close> has returned 0, with \<open>k\<close> callers outside.\<close>

definition booted :: "crypto_ctx_h \<Rightarrow> kstate \<Rightarrow> nat \<Rightarrow> system option" where
  "booted h s k =
     (case cifsd_crypto_create h s of
        (r, s') \<Rightarrow>
          if r = 0 then Some \<lparr>kernel = s', callers = replicate k Outside\<rparr> else None)"

section \<open>Notions for the properties\<close>

subsection \<open>What a destroyed context frees\<close>

text \<open>
  The calls \<^verbatim>\<open>ctx_free\<close> makes for the handles of a context, in order, and the
  calls \<^verbatim>\<open>cifsd_crypto_destroy\<close> makes for a list of contexts.
\<close>

definition shash_frees :: "shash_desc option list \<Rightarrow> event list" where
  "shash_frees ds =
     concat (map (\<lambda>d. case d of None \<Rightarrow> []
                       | Some x \<Rightarrow> [Crypto_free_shash (tfm x), Kfree (shash_addr x)]) ds)"

definition aead_frees :: "tfm_ptr list \<Rightarrow> event list" where
  "aead_frees ts = map Crypto_free_aead (filter (\<lambda>t. t \<noteq> Tfm_NULL) ts)"

definition destroy_frees :: "(ptr \<rightharpoonup> cifsd_crypto_ctx) \<Rightarrow> ptr list \<Rightarrow> event list" where
  "destroy_frees m cs =
     concat (map (\<lambda>ctx. case m ctx of
                           None \<Rightarrow> []
                         | Some c \<Rightarrow> shash_frees (desc c) @ aead_frees (ccmaes c) @ [Cifsd_free ctx]) cs)"

subsection \<open>Slots and calls of the provider\<close>

text \<open>
  The value of \<^verbatim>\<open>ctx->desc[id]\<close> and of \<^verbatim>\<open>ctx->ccmaes[id]\<close> for a live context and
  an index inside the array (empty otherwise), and the number of transforms the trace
  shows the code to have asked of the crypto provider: every call of
  \<^verbatim>\<open>alloc_shash_desc\<close> that returns asks for one, and so does every call of
  \<^verbatim>\<open>alloc_aead\<close> that returns a transform.
\<close>

definition shash_slot :: "kstate \<Rightarrow> ptr \<Rightarrow> int \<Rightarrow> shash_desc option" where
  "shash_slot s ctx idx =
     (case deref s ctx of
        None \<Rightarrow> None
      | Some c \<Rightarrow> if 0 \<le> idx \<and> nat idx < length (desc c) then desc c ! nat idx else None)"

definition aead_slot :: "kstate \<Rightarrow> ptr \<Rightarrow> int \<Rightarrow> tfm_ptr" where
  "aead_slot s ctx idx =
     (case deref s ctx of
        None \<Rightarrow> Tfm_NULL
      | Some c \<Rightarrow> if 0 \<le> idx \<and> nat idx < length (ccmaes c) then ccmaes c ! nat idx else Tfm_NULL)"

fun is_provider_alloc :: "event \<Rightarrow> bool" where
  "is_provider_alloc (Crypto_alloc_shash name t) = True"
| "is_provider_alloc (Crypto_alloc_aead name t) = True"
| "is_provider_alloc e = False"

definition provider_calls :: "event list \<Rightarrow> nat" where
  "provider_calls tr = length (filter is_provider_alloc tr)"

subsection \<open>Accounting for the counter\<close>

text \<open>
  A caller counts for one unit of \<open>avail_ctx\<close> while it has incremented the counter
  and is about to allocate, and while it holds a context. In the states the callers
  reach, the counter is the number of idle contexts plus these units, it is at most
  \<^verbatim>\<open>num_online_cpus()\<close> + 1, and neither the idle list nor a caller holds
  \<^verbatim>\<open>NULL\<close>.
\<close>

fun holds_or_reserves :: "caller \<Rightarrow> nat" where
  "holds_or_reserves (In_find At_alloc) = 1"
| "holds_or_reserves (In_find (Returned ctx)) = 1"
| "holds_or_reserves c = 0"

definition accounted :: "system \<Rightarrow> nat" where
  "accounted cfg =
     length (idle_ctx (kernel cfg)) + sum_list (map holds_or_reserves (callers cfg))"

definition pool_inv :: "32 word \<Rightarrow> system \<Rightarrow> bool" where
  "pool_inv n cfg \<longleftrightarrow>
     unat (avail_ctx (kernel cfg)) = accounted cfg
     \<and> unat (avail_ctx (kernel cfg)) \<le> unat n + 1
     \<and> NULL \<notin> set (idle_ctx (kernel cfg))
     \<and> In_find (Returned NULL) \<notin> set (callers cfg)"

text \<open>The part of it that does not depend on the bound.\<close>

definition null_free :: "system \<Rightarrow> bool" where
  "null_free cfg \<longleftrightarrow>
     NULL \<notin> set (idle_ctx (kernel cfg)) \<and> In_find (Returned NULL) \<notin> set (callers cfg)"

subsection \<open>Examples\<close>

text \<open>
  A header and states to run the functions on. \<open>example_state\<close> is a pool with its
  seed context idle, an allocator with two blocks left and a provider that gives one
  transform and then refuses; the others vary it.
\<close>

definition example_h :: crypto_ctx_h where
  "example_h = \<lparr>CRYPTO_SHASH_HMACMD5 = 0, CRYPTO_SHASH_HMACSHA256 = 1, CRYPTO_SHASH_CMACAES = 2,
     CRYPTO_SHASH_SHA512 = 3, CRYPTO_SHASH_MD4 = 4, CRYPTO_SHASH_MD5 = 5, CRYPTO_SHASH_MAX = 6,
     CRYPTO_AEAD_AES128_GCM = 0, CRYPTO_AEAD_AES128_CCM = 1, CRYPTO_AEAD_MAX = 2\<rparr>"

definition example_state :: kstate where
  "example_state = \<lparr>avail_ctx = 1, idle_ctx = [100], ctx_mem = [100 \<mapsto> empty_ctx example_h],
     heap_next = [200, 300], tfm_next = [Tfm 7, Tfm_ERR], trace = []\<rparr>"

definition example_state2 :: kstate where
  "example_state2 =
     \<lparr>avail_ctx = 3, idle_ctx = [100, 200],
      ctx_mem = [100 \<mapsto> empty_ctx example_h,
                 200 \<mapsto> (empty_ctx example_h)\<lparr>ccmaes := [Tfm 9, Tfm_NULL]\<rparr>,
                 300 \<mapsto> empty_ctx example_h],
      heap_next = [], tfm_next = [], trace = []\<rparr>"

definition example_filled :: kstate where
  "example_filled =
     \<lparr>avail_ctx = 1, idle_ctx = [100],
      ctx_mem = [100 \<mapsto> (empty_ctx example_h)
                   \<lparr>desc := (desc (empty_ctx example_h))[3 := Some \<lparr>shash_addr = 200, tfm = Tfm 7\<rparr>]\<rparr>],
      heap_next = [300], tfm_next = [Tfm_ERR],
      trace = [Crypto_alloc_shash ''sha512'' (Tfm 7), Kzalloc 200]\<rparr>"

definition example_filled_aead :: kstate where
  "example_filled_aead =
     \<lparr>avail_ctx = 1, idle_ctx = [100],
      ctx_mem = [100 \<mapsto> (empty_ctx example_h)
                   \<lparr>ccmaes := (ccmaes (empty_ctx example_h))[1 := Tfm 7]\<rparr>],
      heap_next = [200, 300], tfm_next = [Tfm_ERR],
      trace = [Crypto_alloc_aead ''ccm(aes)'' (Tfm 7)]\<rparr>"

definition example_refusing :: kstate where
  "example_refusing = example_state\<lparr>tfm_next := [Tfm_ERR]\<rparr>"

definition example_refused :: kstate where
  "example_refused =
     example_refusing\<lparr>tfm_next := [], trace := [Crypto_alloc_shash ''sha512'' Tfm_ERR, Wake_up]\<rparr>"

definition example_exhausted :: kstate where
  "example_exhausted = example_state\<lparr>idle_ctx := [], heap_next := []\<rparr>"

text \<open>
  Two callers: the pool before and after \<^verbatim>\<open>cifsd_crypto_create\<close>, and after the
  second caller has incremented the counter; then a pool whose allocator has nothing
  left, where the second caller sleeps until the first one releases.
\<close>

definition example_unbooted :: kstate where
  "example_unbooted =
     \<lparr>avail_ctx = 0, idle_ctx = [], ctx_mem = Map.empty,
      heap_next = [100, 200, 300], tfm_next = [Tfm 7, Tfm_ERR], trace = []\<rparr>"

definition example_booted :: system where
  "example_booted =
     \<lparr>kernel = \<lparr>avail_ctx = 1, idle_ctx = [100], ctx_mem = [100 \<mapsto> empty_ctx example_h],
                heap_next = [200, 300], tfm_next = [Tfm 7, Tfm_ERR],
                trace = [Cifsd_alloc 100]\<rparr>,
      callers = [Outside, Outside]\<rparr>"

definition example_growing :: system where
  "example_growing =
     \<lparr>kernel = \<lparr>avail_ctx = 2, idle_ctx = [], ctx_mem = [100 \<mapsto> empty_ctx example_h],
                heap_next = [200, 300], tfm_next = [Tfm 7, Tfm_ERR],
                trace = [Cifsd_alloc 100]\<rparr>,
      callers = [In_find (Returned 100), In_find At_alloc]\<rparr>"

definition example_both_hold :: system where
  "example_both_hold =
     \<lparr>kernel = \<lparr>avail_ctx = 2, idle_ctx = [],
                ctx_mem = [100 \<mapsto> empty_ctx example_h, 200 \<mapsto> empty_ctx example_h],
                heap_next = [300], tfm_next = [Tfm 7, Tfm_ERR],
                trace = [Cifsd_alloc 100, Cifsd_alloc 200]\<rparr>,
      callers = [In_find (Returned 100), In_find (Returned 200)]\<rparr>"

definition example_starved :: system where
  "example_starved =
     \<lparr>kernel = \<lparr>avail_ctx = 1, idle_ctx = [100], ctx_mem = [100 \<mapsto> empty_ctx example_h],
                heap_next = [], tfm_next = [], trace = []\<rparr>,
      callers = [Outside, Outside]\<rparr>"

definition example_asleep :: system where
  "example_asleep =
     \<lparr>kernel = \<lparr>avail_ctx = 1, idle_ctx = [], ctx_mem = [100 \<mapsto> empty_ctx example_h],
                heap_next = [], tfm_next = [], trace = [Cifsd_alloc NULL]\<rparr>,
      callers = [In_find (Returned 100), In_find At_wait]\<rparr>"

definition example_served :: system where
  "example_served =
     \<lparr>kernel = \<lparr>avail_ctx = 1, idle_ctx = [], ctx_mem = [100 \<mapsto> empty_ctx example_h],
                heap_next = [], tfm_next = [], trace = [Cifsd_alloc NULL, Wake_up]\<rparr>,
      callers = [Outside, In_find (Returned 100)]\<rparr>"

section \<open>Properties\<close>

subsection \<open>Auxiliary facts\<close>

lemma find_loop_Returned: "find_loop h n (Returned ctx) s = Some (ctx, s)"
  by (subst find_loop.simps) simp

lemma find_loop_At_lock:
  "find_loop h n At_lock s = (case find_locked n s of (pc', s') \<Rightarrow> find_loop h n pc' s')"
  by (subst find_loop.simps) simp

lemma find_loop_At_alloc:
  "find_loop h n At_alloc s = (case find_alloc h s of (pc', s') \<Rightarrow> find_loop h n pc' s')"
  by (subst find_loop.simps) simp

lemma find_loop_At_wait:
  "find_loop h n At_wait s = (case find_wait s of (pc', s') \<Rightarrow> find_loop h n pc' s')"
  by (subst find_loop.simps) simp

lemma find_idle_head:
  assumes "idle_ctx s = ctx # rest"
  shows "cifsd_find_crypto_ctx h n s = Some (ctx, s\<lparr>idle_ctx := rest\<rparr>)"
  using assms
  by (simp add: cifsd_find_crypto_ctx_def find_loop_At_lock find_locked_def find_loop_Returned)

lemma fold_free_shash: "fold free_shash ds s = s\<lparr>trace := trace s @ shash_frees ds\<rparr>"
proof (induction ds arbitrary: s)
  case Nil
  then show ?case by (simp add: shash_frees_def)
next
  case (Cons d ds)
  then show ?case
    by (cases d) (simp_all add: shash_frees_def free_shash_def emit_def)
qed

lemma fold_free_aead: "fold free_aead ts s = s\<lparr>trace := trace s @ aead_frees ts\<rparr>"
proof (induction ts arbitrary: s)
  case Nil
  then show ?case by (simp add: aead_frees_def)
next
  case (Cons t ts)
  then show ?case
    by (simp add: aead_frees_def free_aead_def emit_def)
qed

lemma ctx_free_live:
  assumes "ctx \<noteq> NULL" and "ctx_mem s ctx = Some c"
  shows "ctx_free ctx s =
           Some (s\<lparr>ctx_mem := (ctx_mem s)(ctx := None),
                   trace := trace s @ shash_frees (desc c) @ aead_frees (ccmaes c) @ [Cifsd_free ctx]\<rparr>)"
  using assms by (simp add: ctx_free_def deref_def fold_free_shash fold_free_aead emit_def)

lemma ctx_free_frame:
  assumes "ctx_free ctx s = Some s'"
  shows "idle_ctx s' = idle_ctx s" and "avail_ctx s' = avail_ctx s"
  using assms
  by (auto simp: ctx_free_def fold_free_shash fold_free_aead emit_def split: option.splits)

lemma cifsd_alloc_ok:
  assumes "heap_next s = p # ps" and "p \<noteq> NULL"
  shows "cifsd_alloc h s =
           (p, s\<lparr>heap_next := ps, ctx_mem := (ctx_mem s)(p \<mapsto> empty_ctx h),
                  trace := trace s @ [Cifsd_alloc p]\<rparr>)"
  using assms by (simp add: cifsd_alloc_def heap_alloc_def emit_def empty_ctx_def)

lemma cifsd_alloc_fail:
  assumes "heap_next s = [] \<or> hd (heap_next s) = NULL"
  shows "fst (cifsd_alloc h s) = NULL"
    and "idle_ctx (snd (cifsd_alloc h s)) = idle_ctx s"
    and "avail_ctx (snd (cifsd_alloc h s)) = avail_ctx s"
    and "ctx_mem (snd (cifsd_alloc h s)) = ctx_mem s"
    and "trace (snd (cifsd_alloc h s)) = trace s @ [Cifsd_alloc NULL]"
  using assms by (auto simp: cifsd_alloc_def heap_alloc_def emit_def split: list.splits)

lemma cifsd_alloc_frame:
  "avail_ctx (snd (cifsd_alloc h s)) = avail_ctx s"
  "idle_ctx (snd (cifsd_alloc h s)) = idle_ctx s"
  by (auto simp: cifsd_alloc_def heap_alloc_def emit_def split: list.splits)

lemma release_live:
  assumes "deref s ctx = Some c"
  shows "cifsd_release_crypto_ctx n ctx s =
           Some (if avail_ctx s \<le> n
                 then s\<lparr>idle_ctx := ctx # idle_ctx s, trace := trace s @ [Wake_up]\<rparr>
                 else s\<lparr>avail_ctx := avail_ctx s - 1, ctx_mem := (ctx_mem s)(ctx := None),
                        trace := trace s @ shash_frees (desc c) @ aead_frees (ccmaes c)
                                   @ [Cifsd_free ctx]\<rparr>)"
proof -
  from assms have nn: "ctx \<noteq> NULL" and m: "ctx_mem s ctx = Some c"
    by (auto simp: deref_def split: if_splits)
  show ?thesis
    using nn m ctx_free_live [of ctx "s\<lparr>avail_ctx := avail_ctx s - 1\<rparr>" c]
    by (simp add: cifsd_release_crypto_ctx_def emit_def)
qed

lemma kstate_ctx_mem_same: "ctx_mem s ctx = Some c \<Longrightarrow> s\<lparr>ctx_mem := (ctx_mem s)(ctx \<mapsto> c)\<rparr> = s"
  by (cases s) (simp add: map_upd_triv)

lemma replicate_update_same: "(replicate k x)[i := x] = replicate k x"
  by (induction k arbitrary: i) (auto split: nat.splits)

lemma crypto_alloc_shash_frame:
  assumes "crypto_alloc_shash name s = (t, s1)"
  shows "ctx_mem s1 = ctx_mem s" and "idle_ctx s1 = idle_ctx s" and "avail_ctx s1 = avail_ctx s"
    and "provider_calls (trace s1) = provider_calls (trace s) + 1"
    and "heap_next s1 = heap_next s"
  using assms
  by (auto simp: crypto_alloc_shash_def provider_alloc_def emit_def provider_calls_def
      split: list.splits)

lemma crypto_alloc_aead_frame:
  assumes "crypto_alloc_aead name s = (t, s1)"
  shows "ctx_mem s1 = ctx_mem s" and "idle_ctx s1 = idle_ctx s" and "avail_ctx s1 = avail_ctx s"
    and "provider_calls (trace s1) = provider_calls (trace s) + 1"
  using assms
  by (auto simp: crypto_alloc_aead_def provider_alloc_def emit_def provider_calls_def
      split: list.splits)

lemma kzalloc_frame:
  assumes "kzalloc s = (p, s1)"
  shows "ctx_mem s1 = ctx_mem s" and "idle_ctx s1 = idle_ctx s" and "avail_ctx s1 = avail_ctx s"
    and "provider_calls (trace s1) = provider_calls (trace s)"
  using assms
  by (auto simp: kzalloc_def heap_alloc_def emit_def provider_calls_def split: list.splits)

lemma alloc_shash_desc_frame:
  assumes "alloc_shash_desc h idx s = Some (d, s2)"
  shows "ctx_mem s2 = ctx_mem s" and "idle_ctx s2 = idle_ctx s" and "avail_ctx s2 = avail_ctx s"
    and "provider_calls (trace s2) = provider_calls (trace s) + 1"
proof -
  have "ctx_mem s2 = ctx_mem s \<and> idle_ctx s2 = idle_ctx s \<and> avail_ctx s2 = avail_ctx s
        \<and> provider_calls (trace s2) = provider_calls (trace s) + 1"
    using assms
    by (auto simp: alloc_shash_desc_def crypto_alloc_shash_def provider_alloc_def kzalloc_def
        heap_alloc_def emit_def provider_calls_def IS_ERR_def
        split: if_splits list.splits)
  then show "ctx_mem s2 = ctx_mem s" and "idle_ctx s2 = idle_ctx s"
    and "avail_ctx s2 = avail_ctx s"
    and "provider_calls (trace s2) = provider_calls (trace s) + 1"
    by simp_all
qed

lemma alloc_aead_frame:
  assumes "alloc_aead h idx s = (t, s2)"
  shows "ctx_mem s2 = ctx_mem s" and "idle_ctx s2 = idle_ctx s" and "avail_ctx s2 = avail_ctx s"
    and "t \<noteq> Tfm_NULL \<Longrightarrow> provider_calls (trace s2) = provider_calls (trace s) + 1"
proof -
  obtain t1 s1 where g: "crypto_alloc_aead ''gcm(aes)'' s = (t1, s1)"
    by (cases "crypto_alloc_aead ''gcm(aes)'' s")
  obtain t3 s3 where c: "crypto_alloc_aead ''ccm(aes)'' s = (t3, s3)"
    by (cases "crypto_alloc_aead ''ccm(aes)'' s")
  note fg = crypto_alloc_aead_frame [OF g] and fc = crypto_alloc_aead_frame [OF c]
  show "ctx_mem s2 = ctx_mem s"
    using assms g c fg fc by (auto simp: alloc_aead_def split: if_splits)
  show "idle_ctx s2 = idle_ctx s"
    using assms g c fg fc by (auto simp: alloc_aead_def split: if_splits)
  show "avail_ctx s2 = avail_ctx s"
    using assms g c fg fc by (auto simp: alloc_aead_def split: if_splits)
  show "provider_calls (trace s2) = provider_calls (trace s) + 1" if "t \<noteq> Tfm_NULL"
    using that assms g c fg fc by (auto simp: alloc_aead_def split: if_splits)
qed

lemma shash_slot_hit:
  assumes "shash_slot s ctx idx = Some d"
  shows "crypto_shash_ctx_slot h idx ctx s = Some (Some d, s)"
  using assms
  by (auto simp: shash_slot_def crypto_shash_ctx_slot_def split: option.splits if_splits)

lemma shash_slot_fill:
  assumes "crypto_shash_ctx_slot h idx ctx s = Some (Some d, s1)"
  shows "shash_slot s1 ctx idx = Some d"
    and "provider_calls (trace s1) =
           provider_calls (trace s) + (if shash_slot s ctx idx = None then 1 else 0)"
proof -
  from assms obtain c where c: "deref s ctx = Some c" and r: "0 \<le> idx" "nat idx < length (desc c)"
    by (auto simp: crypto_shash_ctx_slot_def split: option.splits if_splits)
  show "shash_slot s1 ctx idx = Some d"
  proof (cases "desc c ! nat idx")
    case None
    with assms c r obtain s2 where a: "alloc_shash_desc h idx s = Some (Some d, s2)"
      and s1: "s1 = s2\<lparr>ctx_mem := (ctx_mem s2)(ctx \<mapsto> c\<lparr>desc := (desc c)[nat idx := Some d]\<rparr>)\<rparr>"
      by (auto simp: crypto_shash_ctx_slot_def split: option.splits)
    from c have "ctx \<noteq> NULL" by (auto simp: deref_def split: if_splits)
    with s1 r show ?thesis by (simp add: shash_slot_def deref_def)
  next
    case (Some e)
    with assms c r have "s1 = s" "e = d" by (auto simp: crypto_shash_ctx_slot_def)
    with Some c r show ?thesis by (simp add: shash_slot_def)
  qed
  show "provider_calls (trace s1) =
           provider_calls (trace s) + (if shash_slot s ctx idx = None then 1 else 0)"
  proof (cases "desc c ! nat idx")
    case None
    with assms c r obtain s2 where a: "alloc_shash_desc h idx s = Some (Some d, s2)"
      and s1: "s1 = s2\<lparr>ctx_mem := (ctx_mem s2)(ctx \<mapsto> c\<lparr>desc := (desc c)[nat idx := Some d]\<rparr>)\<rparr>"
      by (auto simp: crypto_shash_ctx_slot_def split: option.splits)
    from alloc_shash_desc_frame(4) [OF a] s1 None c r show ?thesis
      by (simp add: shash_slot_def)
  next
    case (Some e)
    with assms c r have "s1 = s" by (auto simp: crypto_shash_ctx_slot_def)
    with Some c r show ?thesis by (simp add: shash_slot_def)
  qed
qed

lemma aead_slot_hit:
  assumes "aead_slot s ctx idx \<noteq> Tfm_NULL"
  shows "crypto_aead_ctx_slot h idx ctx s = Some (aead_slot s ctx idx, s)"
  using assms
  by (auto simp: aead_slot_def crypto_aead_ctx_slot_def split: option.splits if_splits)

lemma aead_slot_fill:
  assumes "crypto_aead_ctx_slot h idx ctx s = Some (t, s1)" and "t \<noteq> Tfm_NULL"
  shows "aead_slot s1 ctx idx = t"
    and "provider_calls (trace s1) =
           provider_calls (trace s) + (if aead_slot s ctx idx = Tfm_NULL then 1 else 0)"
proof -
  from assms obtain c where c: "deref s ctx = Some c" and r: "0 \<le> idx" "nat idx < length (ccmaes c)"
    by (auto simp: crypto_aead_ctx_slot_def split: option.splits if_splits)
  from c have nn: "ctx \<noteq> NULL" by (auto simp: deref_def split: if_splits)
  show "aead_slot s1 ctx idx = t"
  proof (cases "ccmaes c ! nat idx = Tfm_NULL")
    case True
    with assms c r obtain s2 where a: "alloc_aead h idx s = (t, s2)"
      and s1: "s1 = s2\<lparr>ctx_mem := (ctx_mem s2)(ctx \<mapsto> c\<lparr>ccmaes := (ccmaes c)[nat idx := t]\<rparr>)\<rparr>"
      by (auto simp: crypto_aead_ctx_slot_def split: prod.splits)
    with nn r show ?thesis by (simp add: aead_slot_def deref_def)
  next
    case False
    with assms c r have "s1 = s" "t = ccmaes c ! nat idx"
      by (auto simp: crypto_aead_ctx_slot_def)
    with False c r show ?thesis by (simp add: aead_slot_def)
  qed
  show "provider_calls (trace s1) =
           provider_calls (trace s) + (if aead_slot s ctx idx = Tfm_NULL then 1 else 0)"
  proof (cases "ccmaes c ! nat idx = Tfm_NULL")
    case True
    with assms c r obtain s2 where a: "alloc_aead h idx s = (t, s2)"
      and s1: "s1 = s2\<lparr>ctx_mem := (ctx_mem s2)(ctx \<mapsto> c\<lparr>ccmaes := (ccmaes c)[nat idx := t]\<rparr>)\<rparr>"
      by (auto simp: crypto_aead_ctx_slot_def split: prod.splits)
    from alloc_aead_frame(4) [OF a assms(2)] s1 True c r show ?thesis
      by (simp add: aead_slot_def)
  next
    case False
    with assms c r have "s1 = s" by (auto simp: crypto_aead_ctx_slot_def)
    with False c r show ?thesis by (simp add: aead_slot_def)
  qed
qed

lemma find_cached:
  assumes "idle_ctx s = ctx # rest"
  shows "idx < CRYPTO_SHASH_MAX h \<Longrightarrow> shash_slot s ctx idx = Some d \<Longrightarrow>
           crypto_shash_ctx_find h n idx s = Some (ctx, s\<lparr>idle_ctx := rest\<rparr>)"
    and "idx < CRYPTO_AEAD_MAX h \<Longrightarrow> aead_slot s ctx idx \<noteq> Tfm_NULL \<Longrightarrow>
           crypto_aead_ctx_find h n idx s = Some (ctx, s\<lparr>idle_ctx := rest\<rparr>)"
proof -
  let ?s1 = "s\<lparr>idle_ctx := rest\<rparr>"
  have s: "shash_slot ?s1 ctx idx = shash_slot s ctx idx"
    and a: "aead_slot ?s1 ctx idx = aead_slot s ctx idx"
    by (simp_all add: shash_slot_def aead_slot_def deref_def)
  show "crypto_shash_ctx_find h n idx s = Some (ctx, ?s1)"
    if "idx < CRYPTO_SHASH_MAX h" and "shash_slot s ctx idx = Some d"
    using that shash_slot_hit [of ?s1 ctx idx d h] s
    by (simp add: crypto_shash_ctx_find_def find_idle_head [OF assms])
  show "crypto_aead_ctx_find h n idx s = Some (ctx, ?s1)"
    if "idx < CRYPTO_AEAD_MAX h" and "aead_slot s ctx idx \<noteq> Tfm_NULL"
    using that aead_slot_hit [of ?s1 ctx idx h] a
    by (simp add: crypto_aead_ctx_find_def find_idle_head [OF assms])
qed

lemma shash_slot_unavailable:
  assumes "deref s ctx = Some c" and "0 \<le> idx" and "nat idx < length (desc c)"
    and "desc c ! nat idx = None" and "alloc_shash_desc h idx s = Some (None, s2)"
  shows "crypto_shash_ctx_slot h idx ctx s = Some (None, s2)" and "deref s2 ctx = Some c"
proof -
  from assms(1) have nn: "ctx \<noteq> NULL" and m: "ctx_mem s ctx = Some c"
    by (auto simp: deref_def split: if_splits)
  from alloc_shash_desc_frame(1) [OF assms(5)] m have m2: "ctx_mem s2 ctx = Some c" by simp
  with nn show "deref s2 ctx = Some c" by (simp add: deref_def)
  have "(desc c)[nat idx := None] = desc c"
    using assms(4) list_update_id [of "desc c" "nat idx"] by simp
  then have "c\<lparr>desc := (desc c)[nat idx := None]\<rparr> = c" by simp
  then show "crypto_shash_ctx_slot h idx ctx s = Some (None, s2)"
    using assms kstate_ctx_mem_same [OF m2]
    by (simp add: crypto_shash_ctx_slot_def)
qed

lemma aead_slot_unavailable:
  assumes "deref s ctx = Some c" and "0 \<le> idx" and "nat idx < length (ccmaes c)"
    and "ccmaes c ! nat idx = Tfm_NULL" and "alloc_aead h idx s = (Tfm_NULL, s2)"
  shows "crypto_aead_ctx_slot h idx ctx s = Some (Tfm_NULL, s2)" and "deref s2 ctx = Some c"
proof -
  from assms(1) have nn: "ctx \<noteq> NULL" and m: "ctx_mem s ctx = Some c"
    by (auto simp: deref_def split: if_splits)
  from alloc_aead_frame(1) [OF assms(5)] m have m2: "ctx_mem s2 ctx = Some c" by simp
  with nn show "deref s2 ctx = Some c" by (simp add: deref_def)
  have "(ccmaes c)[nat idx := Tfm_NULL] = ccmaes c"
    using assms(4) list_update_id [of "ccmaes c" "nat idx"] by simp
  then have "c\<lparr>ccmaes := (ccmaes c)[nat idx := Tfm_NULL]\<rparr> = c" by simp
  then show "crypto_aead_ctx_slot h idx ctx s = Some (Tfm_NULL, s2)"
    using assms kstate_ctx_mem_same [OF m2]
    by (simp add: crypto_aead_ctx_slot_def)
qed

lemma shash_find_unavailable:
  assumes f: "cifsd_find_crypto_ctx h n s = Some (ctx, s1)" and d: "deref s1 ctx = Some c"
    and i0: "0 \<le> idx" and i1: "idx < CRYPTO_SHASH_MAX h" and i2: "nat idx < length (desc c)"
    and e: "desc c ! nat idx = None" and al: "alloc_shash_desc h idx s1 = Some (None, s2)"
  shows "\<exists>s3. crypto_shash_ctx_find h n idx s = Some (NULL, s3)
                \<and> cifsd_release_crypto_ctx n ctx s2 = Some s3
                \<and> shash_slot s2 ctx idx = None
                \<and> (avail_ctx s1 \<le> n \<longrightarrow> idle_ctx s3 = ctx # idle_ctx s1)
                \<and> (\<not> avail_ctx s1 \<le> n \<longrightarrow>
                      idle_ctx s3 = idle_ctx s1 \<and> avail_ctx s3 = avail_ctx s1 - 1
                      \<and> ctx_mem s3 ctx = None)"
proof -
  note slot = shash_slot_unavailable(1) [OF d i0 i2 e al]
  note d2 = shash_slot_unavailable(2) [OF d i0 i2 e al]
  note fr = alloc_shash_desc_frame [OF al]
  define s3 where "s3 = (if avail_ctx s2 \<le> n
                 then s2\<lparr>idle_ctx := ctx # idle_ctx s2, trace := trace s2 @ [Wake_up]\<rparr>
                 else s2\<lparr>avail_ctx := avail_ctx s2 - 1, ctx_mem := (ctx_mem s2)(ctx := None),
                        trace := trace s2 @ shash_frees (desc c) @ aead_frees (ccmaes c)
                                   @ [Cifsd_free ctx]\<rparr>)"
  have rel: "cifsd_release_crypto_ctx n ctx s2 = Some s3"
    unfolding s3_def by (rule release_live [OF d2])
  have find: "crypto_shash_ctx_find h n idx s = Some (NULL, s3)"
    unfolding crypto_shash_ctx_find_def using i1 by (simp add: f slot rel)
  have empty: "shash_slot s2 ctx idx = None"
    by (simp add: shash_slot_def d2 e)
  have p: "avail_ctx s1 \<le> n \<longrightarrow> idle_ctx s3 = ctx # idle_ctx s1"
    by (simp add: s3_def fr)
  have q: "\<not> avail_ctx s1 \<le> n \<longrightarrow>
             idle_ctx s3 = idle_ctx s1 \<and> avail_ctx s3 = avail_ctx s1 - 1 \<and> ctx_mem s3 ctx = None"
    by (simp add: s3_def fr)
  from find rel empty p q show ?thesis by blast
qed

lemma aead_find_unavailable:
  assumes f: "cifsd_find_crypto_ctx h n s = Some (ctx, s1)" and d: "deref s1 ctx = Some c"
    and i0: "0 \<le> idx" and i1: "idx < CRYPTO_AEAD_MAX h" and i2: "nat idx < length (ccmaes c)"
    and e: "ccmaes c ! nat idx = Tfm_NULL" and al: "alloc_aead h idx s1 = (Tfm_NULL, s2)"
  shows "\<exists>s3. crypto_aead_ctx_find h n idx s = Some (NULL, s3)
                \<and> cifsd_release_crypto_ctx n ctx s2 = Some s3
                \<and> aead_slot s2 ctx idx = Tfm_NULL
                \<and> (avail_ctx s1 \<le> n \<longrightarrow> idle_ctx s3 = ctx # idle_ctx s1)
                \<and> (\<not> avail_ctx s1 \<le> n \<longrightarrow>
                      idle_ctx s3 = idle_ctx s1 \<and> avail_ctx s3 = avail_ctx s1 - 1
                      \<and> ctx_mem s3 ctx = None)"
proof -
  note slot = aead_slot_unavailable(1) [OF d i0 i2 e al]
  note d2 = aead_slot_unavailable(2) [OF d i0 i2 e al]
  note fr = alloc_aead_frame(1-3) [OF al]
  define s3 where "s3 = (if avail_ctx s2 \<le> n
                 then s2\<lparr>idle_ctx := ctx # idle_ctx s2, trace := trace s2 @ [Wake_up]\<rparr>
                 else s2\<lparr>avail_ctx := avail_ctx s2 - 1, ctx_mem := (ctx_mem s2)(ctx := None),
                        trace := trace s2 @ shash_frees (desc c) @ aead_frees (ccmaes c)
                                   @ [Cifsd_free ctx]\<rparr>)"
  have rel: "cifsd_release_crypto_ctx n ctx s2 = Some s3"
    unfolding s3_def by (rule release_live [OF d2])
  have find: "crypto_aead_ctx_find h n idx s = Some (NULL, s3)"
    unfolding crypto_aead_ctx_find_def using i1 by (simp add: f slot rel)
  have empty: "aead_slot s2 ctx idx = Tfm_NULL"
    by (simp add: aead_slot_def d2 e)
  have p: "avail_ctx s1 \<le> n \<longrightarrow> idle_ctx s3 = ctx # idle_ctx s1"
    by (simp add: s3_def fr)
  have q: "\<not> avail_ctx s1 \<le> n \<longrightarrow>
             idle_ctx s3 = idle_ctx s1 \<and> avail_ctx s3 = avail_ctx s1 - 1 \<and> ctx_mem s3 ctx = None"
    by (simp add: s3_def fr)
  from find rel empty p q show ?thesis by blast
qed

lemma find_alloc_fails:
  assumes "heap_next s = [] \<or> hd (heap_next s) = NULL"
  shows "fst (find_step h n At_alloc s) = At_wait
         \<and> avail_ctx (snd (find_step h n At_alloc s)) = avail_ctx s - 1
         \<and> idle_ctx (snd (find_step h n At_alloc s)) = idle_ctx s"
proof -
  obtain p s1 where a: "cifsd_alloc h s = (p, s1)" by (cases "cifsd_alloc h s")
  from cifsd_alloc_fail [OF assms, of h] a
  have "p = NULL" "idle_ctx s1 = idle_ctx s" "avail_ctx s1 = avail_ctx s" by simp_all
  with a show ?thesis by (simp add: find_alloc_def ctx_alloc_def)
qed

lemma find_step_nonnull:
  assumes "find_step h n pc s = (pc', s')" and "NULL \<notin> set (idle_ctx s)"
    and "pc \<noteq> Returned NULL"
  shows "NULL \<notin> set (idle_ctx s') \<and> pc' \<noteq> Returned NULL"
proof (cases pc)
  case At_lock
  with assms show ?thesis
    by (auto simp: find_locked_def split: list.splits if_splits)
next
  case At_alloc
  obtain p s1 where a: "cifsd_alloc h s = (p, s1)" by (cases "cifsd_alloc h s")
  with cifsd_alloc_frame(2) [of h s] have "idle_ctx s1 = idle_ctx s" by simp
  with At_alloc assms a show ?thesis
    by (auto simp: find_alloc_def ctx_alloc_def split: if_splits)
next
  case At_wait
  with assms show ?thesis by (auto simp: find_wait_def split: if_splits)
next
  case (Returned c)
  with assms show ?thesis by auto
qed

lemma find_loop_nonnull:
  assumes "find_loop h n pc s = Some y"
  shows "NULL \<notin> set (idle_ctx s) \<longrightarrow> pc \<noteq> Returned NULL \<longrightarrow> fst y \<noteq> NULL"
proof (rule find_loop.raw_induct
    [where P = "\<lambda>h n pc s y. NULL \<notin> set (idle_ctx s) \<longrightarrow> pc \<noteq> Returned NULL \<longrightarrow> fst y \<noteq> NULL"],
    goal_cases)
  case (1 f h n pc s y)
  show ?case
  proof (intro impI)
    assume i: "NULL \<notin> set (idle_ctx s)" and r: "pc \<noteq> Returned NULL"
    show "fst y \<noteq> NULL"
    proof (cases "\<exists>c. pc = Returned c")
      case True
      with 1(2) r show ?thesis by auto
    next
      case False
      obtain pc' s' where st: "find_step h n pc s = (pc', s')" by (cases "find_step h n pc s")
      with False 1(2) have "f h n pc' s' = Some y" by (cases pc) auto
      from 1(1) [OF this] find_step_nonnull [OF st i r] show ?thesis by simp
    qed
  qed
next
  show "find_loop h n pc s = Some y" by (rule assms)
qed

lemma find_loop_asleep:
  assumes "find_loop h n pc s = Some y"
  shows "\<not> (pc = At_wait \<and> idle_ctx s = [])"
proof (rule find_loop.raw_induct
    [where P = "\<lambda>h n pc s y. \<not> (pc = At_wait \<and> idle_ctx s = [])"], goal_cases)
  case (1 f h n pc s y)
  show ?case
  proof
    assume a: "pc = At_wait \<and> idle_ctx s = []"
    with 1(2) have "f h n At_wait s = Some y" by (simp add: find_wait_def)
    from 1(1) [OF this] a show False by simp
  qed
next
  show "find_loop h n pc s = Some y" by (rule assms)
qed

lemma find_loop_sleeps: "idle_ctx s = [] \<Longrightarrow> find_loop h n At_wait s = None"
  using find_loop_asleep [of h n At_wait s] by (cases "find_loop h n At_wait s") auto

lemma word_dec_neq_inc: "(a :: 32 word) - 1 \<noteq> a + 1"
proof
  assume "a - 1 = a + 1"
  then have "(a - 1) - a = (a + 1) - a" by simp
  then have "(- 1 :: 32 word) = 1" by simp
  then show False by simp
qed

lemma find_step_increment:
  assumes "find_step h n pc s = (pc', s')" and "avail_ctx s' = avail_ctx s + 1"
  shows "pc = At_lock \<and> idle_ctx s = [] \<and> avail_ctx s \<le> n \<and> pc' = At_alloc"
proof (cases pc)
  case At_lock
  with assms show ?thesis
    by (auto simp: find_locked_def split: list.splits if_splits)
next
  case At_alloc
  obtain p s1 where a: "cifsd_alloc h s = (p, s1)" by (cases "cifsd_alloc h s")
  with cifsd_alloc_frame(1) [of h s] have "avail_ctx s1 = avail_ctx s" by simp
  with At_alloc assms a word_dec_neq_inc [of "avail_ctx s"] show ?thesis
    by (auto simp: find_alloc_def ctx_alloc_def split: if_splits)
next
  case At_wait
  with assms show ?thesis by (auto simp: find_wait_def split: if_splits)
next
  case (Returned c)
  with assms show ?thesis by auto
qed

lemma unat_inc:
  fixes a n :: "32 word"
  assumes "a \<le> n" and "unat n + 1 < 2 ^ 32"
  shows "unat (a + 1) = unat a + 1"
proof -
  from assms have "unat a + unat (1 :: 32 word) < 2 ^ LENGTH(32)"
    by (simp add: word_le_nat_alt)
  then show ?thesis by (simp add: unat_add_lem [THEN iffD1])
qed

lemma unat_dec:
  fixes a :: "32 word"
  assumes "0 < unat a"
  shows "unat (a - 1) = unat a - 1"
  using assms by (simp add: unat_minus_one unat_gt_0)

lemma sum_weights_update:
  assumes "t < length cs"
  shows "sum_list (map f (cs[t := c])) + f (cs ! t) = sum_list (map f cs) + (f c :: nat)"
  using assms
proof (induction cs arbitrary: t)
  case Nil
  then show ?case by simp
next
  case (Cons a cs)
  then show ?case by (cases t) auto
qed

lemma weight_le_sum:
  assumes "t < length cs"
  shows "(f (cs ! t) :: nat) \<le> sum_list (map f cs)"
  using assms
proof (induction cs arbitrary: t)
  case Nil
  then show ?case by simp
next
  case (Cons a cs)
  then show ?case by (cases t) (auto simp: trans_le_add2)
qed

lemma set_update_notin:
  assumes "x \<notin> set cs" and "c \<noteq> x"
  shows "x \<notin> set (cs[t := c])"
  using assms set_update_subset_insert [of cs t c] by auto

lemma pool_inv_Call_find:
  assumes "pool_inv n cfg" and "sys_step h n (Call_find t) cfg = Some cfg'"
  shows "pool_inv n cfg'"
proof (cases "t < length (callers cfg) \<and> callers cfg ! t = Outside")
  case True
  then have c: "cfg' = cfg\<lparr>callers := (callers cfg)[t := In_find At_lock]\<rparr>"
    using assms(2) by (simp add: sys_step_def)
  from True sum_weights_update [of t "callers cfg" holds_or_reserves "In_find At_lock"]
  have "sum_list (map holds_or_reserves ((callers cfg)[t := In_find At_lock])) =
          sum_list (map holds_or_reserves (callers cfg))"
    by simp
  moreover have "In_find (Returned NULL) \<notin> set ((callers cfg)[t := In_find At_lock])"
    using assms(1) by (intro set_update_notin) (simp_all add: pool_inv_def)
  ultimately show ?thesis
    using assms(1) c by (simp add: pool_inv_def accounted_def)
next
  case False
  then have "cfg' = cfg" using assms(2) by (auto simp: sys_step_def)
  with assms(1) show ?thesis by simp
qed

lemma pool_inv_Call_release:
  assumes "pool_inv n cfg" and "sys_step h n (Call_release t) cfg = Some cfg'"
  shows "pool_inv n cfg'"
proof (cases "t < length (callers cfg) \<and> (\<exists>ctx. callers cfg ! t = In_find (Returned ctx))")
  case True
  then obtain ctx where t: "t < length (callers cfg)"
    and h: "callers cfg ! t = In_find (Returned ctx)" by blast
  let ?s = "kernel cfg"
  from assms(2) t h obtain s' where
    r: "cifsd_release_crypto_ctx n ctx ?s = Some s'"
    and c: "cfg' = \<lparr>kernel = s', callers = (callers cfg)[t := Outside]\<rparr>"
    by (auto simp: sys_step_def split: option.splits)
  from t h have "In_find (Returned ctx) \<in> set (callers cfg)" by (metis nth_mem)
  with assms(1) have nn: "ctx \<noteq> NULL" by (auto simp: pool_inv_def)
  from t h sum_weights_update [of t "callers cfg" holds_or_reserves Outside]
  have w: "sum_list (map holds_or_reserves ((callers cfg)[t := Outside])) + 1 =
          sum_list (map holds_or_reserves (callers cfg))"
    by simp
  have o: "In_find (Returned NULL) \<notin> set ((callers cfg)[t := Outside])"
    using assms(1) by (intro set_update_notin) (simp_all add: pool_inv_def)
  show ?thesis
  proof (cases "avail_ctx ?s \<le> n")
    case True
    with r nn have "s' = emit Wake_up (?s\<lparr>idle_ctx := ctx # idle_ctx ?s\<rparr>)"
      by (simp add: cifsd_release_crypto_ctx_def)
    then have "avail_ctx s' = avail_ctx ?s" "idle_ctx s' = ctx # idle_ctx ?s"
      by (simp_all add: emit_def)
    with assms(1) c w o nn show ?thesis
      by (simp add: pool_inv_def accounted_def)
  next
    case False
    with r nn have "ctx_free ctx (?s\<lparr>avail_ctx := avail_ctx ?s - 1\<rparr>) = Some s'"
      by (simp add: cifsd_release_crypto_ctx_def)
    from ctx_free_frame [OF this]
    have f: "avail_ctx s' = avail_ctx ?s - 1" "idle_ctx s' = idle_ctx ?s" by simp_all
    from False have "0 < unat (avail_ctx ?s)" by (simp add: word_le_nat_alt)
    then have d: "unat (avail_ctx s') = unat (avail_ctx ?s) - 1" "0 < unat (avail_ctx ?s)"
      by (simp_all add: unat_dec f)
    from assms(1) have i: "unat (avail_ctx ?s) =
        length (idle_ctx ?s) + sum_list (map holds_or_reserves (callers cfg))"
      "unat (avail_ctx ?s) \<le> unat n + 1" "NULL \<notin> set (idle_ctx ?s)"
      by (simp_all add: pool_inv_def accounted_def)
    have "unat (avail_ctx s') =
        length (idle_ctx s') + sum_list (map holds_or_reserves ((callers cfg)[t := Outside]))"
    proof -
      have "length (idle_ctx s') = length (idle_ctx ?s)" by (simp add: f(2))
      with d i(1) w show ?thesis by linarith
    qed
    moreover have "unat (avail_ctx s') \<le> unat n + 1" using d i(2) by linarith
    ultimately show ?thesis
      using c o i(3) f(2) by (simp add: pool_inv_def accounted_def)
  qed
next
  case False
  then have "cfg' = cfg"
    using assms(2) by (auto simp: sys_step_def split: caller.splits find_pc.splits)
  with assms(1) show ?thesis by simp
qed

lemma pool_inv_find_step:
  assumes inv: "pool_inv n cfg" and t: "t < length (callers cfg)"
    and pc: "callers cfg ! t = In_find pc" and st: "find_step h n pc (kernel cfg) = (pc', s')"
    and n: "unat n + 1 < 2 ^ 32"
  shows "pool_inv n \<lparr>kernel = s', callers = (callers cfg)[t := In_find pc']\<rparr>"
proof -
  let ?w = "\<lambda>cs. sum_list (map holds_or_reserves cs)"
  let ?s = "kernel cfg" and ?cs = "callers cfg"
  from inv have i: "unat (avail_ctx ?s) = length (idle_ctx ?s) + ?w ?cs"
    "unat (avail_ctx ?s) \<le> unat n + 1" "NULL \<notin> set (idle_ctx ?s)"
    "In_find (Returned NULL) \<notin> set ?cs"
    by (simp_all add: pool_inv_def accounted_def)
  from t pc have "In_find pc \<in> set ?cs" by (metis nth_mem)
  with i(4) have pcn: "pc \<noteq> Returned NULL" by auto
  from find_step_nonnull [OF st i(3) pcn]
  have nn: "NULL \<notin> set (idle_ctx s')" "pc' \<noteq> Returned NULL" by simp_all
  from i(4) nn(2) have o: "In_find (Returned NULL) \<notin> set (?cs[t := In_find pc'])"
    by (intro set_update_notin) simp_all
  from sum_weights_update [OF t, of holds_or_reserves "In_find pc'"] pc
  have w: "?w (?cs[t := In_find pc']) + holds_or_reserves (In_find pc) =
             ?w ?cs + holds_or_reserves (In_find pc')"
    by simp
  from weight_le_sum [OF t, of holds_or_reserves] pc
  have le: "holds_or_reserves (In_find pc) \<le> ?w ?cs" by simp
  have fin: "unat (avail_ctx s') = length (idle_ctx s') + ?w (?cs[t := In_find pc'])"
    if "unat (avail_ctx s') + holds_or_reserves (In_find pc) + length (idle_ctx ?s) =
          unat (avail_ctx ?s) + holds_or_reserves (In_find pc') + length (idle_ctx s')"
    using that w i(1) by linarith
  have "unat (avail_ctx s') = length (idle_ctx s') + ?w (?cs[t := In_find pc'])
        \<and> unat (avail_ctx s') \<le> unat n + 1"
  proof (cases pc)
    case At_lock
    show ?thesis
    proof (cases "idle_ctx ?s")
      case (Cons ctx rest)
      with At_lock st have e: "pc' = Returned ctx" "avail_ctx s' = avail_ctx ?s"
        "idle_ctx s' = rest"
        by (auto simp: find_locked_def)
      with At_lock Cons i(2) show ?thesis by (intro conjI fin) simp_all
    next
      case Nil
      show ?thesis
      proof (cases "avail_ctx ?s > n")
        case True
        with Nil At_lock st have "pc' = At_wait" "s' = ?s" by (auto simp: find_locked_def)
        with At_lock i(2) show ?thesis by (intro conjI fin) simp_all
      next
        case False
        with Nil At_lock st have e: "pc' = At_alloc" "avail_ctx s' = avail_ctx ?s + 1"
          "idle_ctx s' = idle_ctx ?s"
          by (auto simp: find_locked_def)
        from False have a: "avail_ctx ?s \<le> n" by simp
        from unat_inc [OF a n] a have "unat (avail_ctx ?s + 1) = unat (avail_ctx ?s) + 1"
          "unat (avail_ctx ?s) \<le> unat n"
          by (simp_all add: word_le_nat_alt)
        with e At_lock show ?thesis by (intro conjI fin) simp_all
      qed
    qed
  next
    case At_alloc
    obtain p s1 where a: "cifsd_alloc h ?s = (p, s1)" by (cases "cifsd_alloc h ?s")
    with cifsd_alloc_frame [of h ?s]
    have f: "avail_ctx s1 = avail_ctx ?s" "idle_ctx s1 = idle_ctx ?s" by simp_all
    show ?thesis
    proof (cases "p = NULL")
      case True
      with At_alloc st a f have e: "pc' = At_wait" "avail_ctx s' = avail_ctx ?s - 1"
        "idle_ctx s' = idle_ctx ?s"
        by (auto simp: find_alloc_def ctx_alloc_def)
      from le At_alloc i(1) have "0 < unat (avail_ctx ?s)" by simp
      then have "unat (avail_ctx ?s - 1) = unat (avail_ctx ?s) - 1" "0 < unat (avail_ctx ?s)"
        by (simp_all add: unat_dec)
      with e At_alloc i(2) show ?thesis by (intro conjI fin) simp_all
    next
      case False
      with At_alloc st a f have "pc' = Returned p" "avail_ctx s' = avail_ctx ?s"
        "idle_ctx s' = idle_ctx ?s"
        by (auto simp: find_alloc_def ctx_alloc_def)
      with At_alloc i(2) show ?thesis by (intro conjI fin) simp_all
    qed
  next
    case At_wait
    with st have "pc' = At_lock \<or> pc' = At_wait" "s' = ?s"
      by (auto simp: find_wait_def split: if_splits)
    with At_wait i(2) show ?thesis by (intro conjI fin) auto
  next
    case (Returned ctx)
    with st have "pc' = Returned ctx" "s' = ?s" by auto
    with Returned i(2) show ?thesis by (intro conjI fin) simp_all
  qed
  with nn(1) o show ?thesis by (simp add: pool_inv_def accounted_def)
qed

lemma pool_inv_Step:
  assumes "pool_inv n cfg" and "sys_step h n (Step t) cfg = Some cfg'"
    and "unat n + 1 < 2 ^ 32"
  shows "pool_inv n cfg'"
proof (cases "t < length (callers cfg) \<and> (\<exists>pc. callers cfg ! t = In_find pc)")
  case True
  then obtain pc where t: "t < length (callers cfg)" and pc: "callers cfg ! t = In_find pc"
    by blast
  obtain pc' s' where st: "find_step h n pc (kernel cfg) = (pc', s')"
    by (cases "find_step h n pc (kernel cfg)")
  with assms(2) t pc have c: "cfg' = \<lparr>kernel = s', callers = (callers cfg)[t := In_find pc']\<rparr>"
    by (simp add: sys_step_def)
  from pool_inv_find_step [OF assms(1) t pc st assms(3)] c show ?thesis by simp
next
  case False
  then have "cfg' = cfg"
    using assms(2) by (auto simp: sys_step_def split: caller.splits)
  with assms(1) show ?thesis by simp
qed

lemma pool_inv_run:
  assumes "run h n acts cfg = Some cfg'" and "pool_inv n cfg" and "unat n + 1 < 2 ^ 32"
  shows "pool_inv n cfg'"
  using assms
proof (induction acts arbitrary: cfg)
  case Nil
  then show ?case by simp
next
  case (Cons a acts)
  from Cons.prems(1) obtain cfg1 where s: "sys_step h n a cfg = Some cfg1"
    and r: "run h n acts cfg1 = Some cfg'"
    by (auto split: option.splits)
  have "pool_inv n cfg1"
  proof (cases a)
    case (Call_find t)
    with s Cons.prems(2) show ?thesis by (auto intro: pool_inv_Call_find)
  next
    case (Step t)
    with s Cons.prems(2,3) show ?thesis by (auto intro: pool_inv_Step)
  next
    case (Call_release t)
    with s Cons.prems(2) show ?thesis by (auto intro: pool_inv_Call_release)
  qed
  from Cons.IH [OF r this Cons.prems(3)] show ?case .
qed

lemma pool_inv_booted:
  assumes "booted h s k = Some cfg"
  shows "pool_inv n cfg"
proof -
  obtain r s' where c: "cifsd_crypto_create h s = (r, s')" by (cases "cifsd_crypto_create h s")
  with assms have r: "r = 0" and cfg: "cfg = \<lparr>kernel = s', callers = replicate k Outside\<rparr>"
    by (auto simp: booted_def split: if_splits)
  let ?s0 = "s\<lparr>idle_ctx := [], avail_ctx := 1\<rparr>"
  obtain p s1 where a: "cifsd_alloc h ?s0 = (p, s1)" by (cases "cifsd_alloc h ?s0")
  with cifsd_alloc_frame [of h ?s0] have f: "avail_ctx s1 = 1" "idle_ctx s1 = []" by simp_all
  from c r a have p: "p \<noteq> NULL" and s': "s' = s1\<lparr>idle_ctx := p # idle_ctx s1\<rparr>"
    by (auto simp: cifsd_crypto_create_def ctx_alloc_def ENOMEM_def split: if_splits)
  have "sum_list (map holds_or_reserves (replicate k Outside)) = 0"
    by (induction k) simp_all
  with cfg s' f p show ?thesis
    by (auto simp: pool_inv_def accounted_def)
qed

lemma null_free_sys_step:
  assumes "null_free cfg" and "sys_step h n a cfg = Some cfg'"
  shows "null_free cfg'"
proof (cases a)
  case (Call_find t)
  have "In_find (Returned NULL) \<notin> set ((callers cfg)[t := In_find At_lock])"
    using assms(1) by (intro set_update_notin) (simp_all add: null_free_def)
  with assms Call_find show ?thesis
    by (auto simp: sys_step_def null_free_def split: if_splits)
next
  case (Step t)
  show ?thesis
  proof (cases "t < length (callers cfg) \<and> (\<exists>pc. callers cfg ! t = In_find pc)")
    case True
    then obtain pc where t: "t < length (callers cfg)" and pc: "callers cfg ! t = In_find pc"
      by blast
    obtain pc' s' where st: "find_step h n pc (kernel cfg) = (pc', s')"
      by (cases "find_step h n pc (kernel cfg)")
    with assms(2) Step t pc
    have c: "cfg' = \<lparr>kernel = s', callers = (callers cfg)[t := In_find pc']\<rparr>"
      by (simp add: sys_step_def)
    from t pc have "In_find pc \<in> set (callers cfg)" by (metis nth_mem)
    with assms(1) have "pc \<noteq> Returned NULL" by (auto simp: null_free_def)
    from find_step_nonnull [OF st _ this] assms(1)
    have nn: "NULL \<notin> set (idle_ctx s')" "pc' \<noteq> Returned NULL"
      by (simp_all add: null_free_def)
    have "In_find (Returned NULL) \<notin> set ((callers cfg)[t := In_find pc'])"
      using assms(1) nn(2) by (intro set_update_notin) (simp_all add: null_free_def)
    with c nn(1) show ?thesis by (simp add: null_free_def)
  next
    case False
    then have "cfg' = cfg"
      using assms(2) Step by (auto simp: sys_step_def split: caller.splits)
    with assms(1) show ?thesis by simp
  qed
next
  case (Call_release t)
  show ?thesis
  proof (cases "t < length (callers cfg) \<and> (\<exists>ctx. callers cfg ! t = In_find (Returned ctx))")
    case True
    then obtain ctx where t: "t < length (callers cfg)"
      and h: "callers cfg ! t = In_find (Returned ctx)" by blast
    let ?s = "kernel cfg"
    from assms(2) Call_release t h obtain s' where
      r: "cifsd_release_crypto_ctx n ctx ?s = Some s'"
      and c: "cfg' = \<lparr>kernel = s', callers = (callers cfg)[t := Outside]\<rparr>"
      by (auto simp: sys_step_def split: option.splits)
    from t h have "In_find (Returned ctx) \<in> set (callers cfg)" by (metis nth_mem)
    with assms(1) have nn: "ctx \<noteq> NULL" by (auto simp: null_free_def)
    have "set (idle_ctx s') \<subseteq> insert ctx (set (idle_ctx ?s))"
    proof (cases "avail_ctx ?s \<le> n")
      case True
      with r nn show ?thesis by (auto simp: cifsd_release_crypto_ctx_def emit_def)
    next
      case False
      with r nn have "ctx_free ctx (?s\<lparr>avail_ctx := avail_ctx ?s - 1\<rparr>) = Some s'"
        by (simp add: cifsd_release_crypto_ctx_def)
      from ctx_free_frame(1) [OF this] show ?thesis by auto
    qed
    with assms(1) nn have i: "NULL \<notin> set (idle_ctx s')" by (auto simp: null_free_def)
    have "In_find (Returned NULL) \<notin> set ((callers cfg)[t := Outside])"
      using assms(1) by (intro set_update_notin) (simp_all add: null_free_def)
    with c i show ?thesis by (simp add: null_free_def)
  next
    case False
    then have "cfg' = cfg"
      using assms(2) Call_release
      by (auto simp: sys_step_def split: caller.splits find_pc.splits)
    with assms(1) show ?thesis by simp
  qed
qed

lemma null_free_run:
  assumes "run h n acts cfg = Some cfg'" and "null_free cfg"
  shows "null_free cfg'"
  using assms
proof (induction acts arbitrary: cfg)
  case Nil
  then show ?case by simp
next
  case (Cons a acts)
  from Cons.prems(1) obtain cfg1 where s: "sys_step h n a cfg = Some cfg1"
    and r: "run h n acts cfg1 = Some cfg'"
    by (auto split: option.splits)
  from Cons.IH [OF r null_free_sys_step [OF Cons.prems(2) s]] show ?case .
qed

lemma null_free_booted:
  assumes "booted h s k = Some cfg"
  shows "null_free cfg"
proof -
  obtain r s' where c: "cifsd_crypto_create h s = (r, s')" by (cases "cifsd_crypto_create h s")
  with assms have r: "r = 0" and cfg: "cfg = \<lparr>kernel = s', callers = replicate k Outside\<rparr>"
    by (auto simp: booted_def split: if_splits)
  let ?s0 = "s\<lparr>idle_ctx := [], avail_ctx := 1\<rparr>"
  obtain p s1 where a: "cifsd_alloc h ?s0 = (p, s1)" by (cases "cifsd_alloc h ?s0")
  with cifsd_alloc_frame [of h ?s0] have f: "idle_ctx s1 = []" by simp
  from c r a have p: "p \<noteq> NULL" and s': "s' = s1\<lparr>idle_ctx := p # idle_ctx s1\<rparr>"
    by (auto simp: cifsd_crypto_create_def ctx_alloc_def ENOMEM_def split: if_splits)
  with cfg f show ?thesis by (auto simp: null_free_def)
qed

lemma destroy_frees_cong:
  "(\<And>c. c \<in> set cs \<Longrightarrow> m c = m' c) \<Longrightarrow> destroy_frees m cs = destroy_frees m' cs"
  unfolding destroy_frees_def by (induction cs) auto

lemma destroy_closed_form:
  assumes "idle_ctx s = cs" and "distinct cs" and "NULL \<notin> set cs"
    and "set cs \<subseteq> dom (ctx_mem s)"
  shows "cifsd_crypto_destroy s =
           Some (s\<lparr>idle_ctx := [], ctx_mem := ctx_mem s |` (- set cs),
                   trace := trace s @ destroy_frees (ctx_mem s) cs\<rparr>)"
  using assms
proof (induction cs arbitrary: s)
  case Nil
  then show ?case
    by (subst cifsd_crypto_destroy.simps) (cases s, simp add: destroy_frees_def restrict_map_def)
next
  case (Cons ctx rest)
  from Cons.prems obtain c where c: "ctx_mem s ctx = Some c" by auto
  from Cons.prems have nn: "ctx \<noteq> NULL" by auto
  let ?s1 = "s\<lparr>idle_ctx := rest, ctx_mem := (ctx_mem s)(ctx := None),
                trace := trace s @ shash_frees (desc c) @ aead_frees (ccmaes c) @ [Cifsd_free ctx]\<rparr>"
  have free: "ctx_free ctx (s\<lparr>idle_ctx := rest\<rparr>) = Some ?s1"
    using ctx_free_live [of ctx "s\<lparr>idle_ctx := rest\<rparr>" c] nn c by simp
  have ih: "cifsd_crypto_destroy ?s1 =
           Some (?s1\<lparr>idle_ctx := [], ctx_mem := ctx_mem ?s1 |` (- set rest),
                   trace := trace ?s1 @ destroy_frees (ctx_mem ?s1) rest\<rparr>)"
    using Cons.prems by (intro Cons.IH) auto
  have m: "((ctx_mem s)(ctx := None)) |` (- set rest) = ctx_mem s |` (- set (ctx # rest))"
    by (auto simp: restrict_map_def fun_eq_iff)
  have f: "destroy_frees ((ctx_mem s)(ctx := None)) rest = destroy_frees (ctx_mem s) rest"
    using Cons.prems by (intro destroy_frees_cong) auto
  have g: "destroy_frees (ctx_mem s) (ctx # rest) =
             shash_frees (desc c) @ aead_frees (ccmaes c) @ [Cifsd_free ctx]
               @ destroy_frees (ctx_mem s) rest"
    using c by (simp add: destroy_frees_def)
  show ?case
    using Cons.prems(1) free ih m f g
    by (subst cifsd_crypto_destroy.simps) simp
qed

subsection \<open>The examples run\<close>

lemma example_slot_runs:
  "crypto_shash_ctx_slot example_h 3 100 example_state =
     Some (Some \<lparr>shash_addr = 200, tfm = Tfm 7\<rparr>, example_filled)"
  "crypto_aead_ctx_slot example_h 1 100 example_state = Some (Tfm 7, example_filled_aead)"
  "shash_slot example_state 100 3 = None"
  "aead_slot example_state 100 1 = Tfm_NULL"
  "shash_slot example_filled 100 3 = Some \<lparr>shash_addr = 200, tfm = Tfm 7\<rparr>"
  "aead_slot example_filled_aead 100 1 = Tfm 7"
  by (simp_all add: crypto_shash_ctx_slot_def crypto_aead_ctx_slot_def deref_def
      alloc_shash_desc_def alloc_aead_def crypto_alloc_shash_def crypto_alloc_aead_def
      provider_alloc_def kzalloc_def heap_alloc_def emit_def IS_ERR_def NULL_def
      example_state_def example_filled_def example_filled_aead_def example_h_def empty_ctx_def
      shash_slot_def aead_slot_def)

lemma example_refusing_runs:
  "cifsd_find_crypto_ctx example_h 4 example_refusing =
     Some (100, example_refusing\<lparr>idle_ctx := []\<rparr>)"
  "deref (example_refusing\<lparr>idle_ctx := []\<rparr>) 100 = Some (empty_ctx example_h)"
  "alloc_shash_desc example_h 3 (example_refusing\<lparr>idle_ctx := []\<rparr>) =
     Some (None, example_refusing\<lparr>idle_ctx := [], tfm_next := [],
                   trace := [Crypto_alloc_shash ''sha512'' Tfm_ERR]\<rparr>)"
  "alloc_aead example_h 1 (example_refusing\<lparr>idle_ctx := []\<rparr>) =
     (Tfm_NULL, example_refusing\<lparr>idle_ctx := [], tfm_next := [],
                   trace := [Crypto_alloc_aead ''ccm(aes)'' Tfm_ERR]\<rparr>)"
  "avail_ctx (example_refusing\<lparr>idle_ctx := []\<rparr>) \<le> 4"
  "idle_ctx (example_refusing\<lparr>idle_ctx := []\<rparr>) = []"
  by (simp_all add: cifsd_find_crypto_ctx_def find_loop_At_lock find_locked_def
      find_loop_Returned deref_def alloc_shash_desc_def alloc_aead_def crypto_alloc_shash_def
      crypto_alloc_aead_def provider_alloc_def emit_def IS_ERR_def NULL_def
      example_refusing_def example_state_def example_h_def)

lemma example_refusing_runs0:
  "cifsd_find_crypto_ctx example_h 0 example_refusing =
     Some (100, example_refusing\<lparr>idle_ctx := []\<rparr>)"
  "\<not> avail_ctx (example_refusing\<lparr>idle_ctx := []\<rparr>) \<le> 0"
  "avail_ctx (example_refusing\<lparr>idle_ctx := []\<rparr>) - 1 = 0"
  by (simp_all add: cifsd_find_crypto_ctx_def find_loop_At_lock find_locked_def
      find_loop_Returned example_refusing_def example_state_def)

lemma example_filled_idle:
  "idle_ctx example_filled = 100 # [] \<and> 3 < CRYPTO_SHASH_MAX example_h
   \<and> shash_slot example_filled 100 3 = Some \<lparr>shash_addr = 200, tfm = Tfm 7\<rparr>"
  "idle_ctx example_filled_aead = 100 # [] \<and> 1 < CRYPTO_AEAD_MAX example_h
   \<and> aead_slot example_filled_aead 100 1 \<noteq> Tfm_NULL"
  by (simp_all add: example_slot_runs) (simp_all add: example_filled_def example_filled_aead_def example_h_def)

lemma example_exhausted_runs:
  "idle_ctx example_exhausted = []" "avail_ctx example_exhausted \<le> 4"
  "heap_next example_exhausted = [] \<or> hd (heap_next example_exhausted) = NULL"
  "NULL \<notin> set (idle_ctx example_state)
   \<and> cifsd_find_crypto_ctx example_h 4 example_state =
       Some (100, example_state\<lparr>idle_ctx := []\<rparr>)"
  by (simp_all add: example_exhausted_def example_state_def NULL_def cifsd_find_crypto_ctx_def
      find_loop_At_lock find_locked_def find_loop_Returned)

lemma example_boots: "booted example_h example_unbooted 2 = Some example_booted"
  by (simp add: booted_def cifsd_crypto_create_def ctx_alloc_def cifsd_alloc_def heap_alloc_def
      emit_def NULL_def example_unbooted_def example_booted_def numeral_2_eq_2)

lemma example_grows:
  "run example_h 1 [Call_find 0, Step 0, Call_find 1, Step 1] example_booted = Some example_growing"
  by (simp add: sys_step_def find_locked_def example_booted_def example_growing_def)

lemma example_reserves:
  "find_step example_h 1 At_lock (kernel example_booted\<lparr>idle_ctx := []\<rparr>) =
     (At_alloc, kernel example_booted\<lparr>idle_ctx := [], avail_ctx := 2\<rparr>)
   \<and> avail_ctx (kernel example_booted\<lparr>idle_ctx := [], avail_ctx := 2\<rparr>) =
       avail_ctx (kernel example_booted\<lparr>idle_ctx := []\<rparr>) + 1"
  by (simp add: find_locked_def example_booted_def)

lemma example_both_acquire:
  "booted example_h example_unbooted 2 = Some example_booted
   \<and> run example_h 4 [Call_find 0, Step 0, Call_find 1, Step 1, Step 1] example_booted =
       Some example_both_hold
   \<and> 1 < length (callers example_both_hold)
   \<and> callers example_both_hold ! 1 = In_find (Returned 200)"
  by (simp add: example_boots)
    (simp add: sys_step_def find_locked_def find_alloc_def ctx_alloc_def cifsd_alloc_def
      heap_alloc_def emit_def NULL_def example_booted_def example_both_hold_def)

lemma example_retry:
  "run example_h 4 [Call_find 0, Step 0, Call_find 1, Step 1, Step 1, Step 1] example_starved =
     Some example_asleep"
  "run example_h 4 [Call_release 0, Step 1, Step 1] example_asleep = Some example_served"
  by (simp_all add: sys_step_def find_locked_def find_alloc_def find_wait_def ctx_alloc_def
      cifsd_alloc_def heap_alloc_def cifsd_release_crypto_ctx_def emit_def NULL_def
      example_starved_def example_asleep_def example_served_def)

subsection \<open>Acquire by growth\<close>

text \<open>
  Claim C1. With the idle list empty and the counter not greater than
  \<^verbatim>\<open>num_online_cpus()\<close>, the step under the lock increments the counter; the next
  step allocates, and with a block from the allocator it returns the new, empty
  context. The idle list is empty after each of the two steps: the new context is
  handed to the caller and never listed.
\<close>

theorem find_grows:
  assumes "idle_ctx s = []" and "avail_ctx s \<le> n"
    and "heap_next s = p # ps" and "p \<noteq> NULL"
  shows "find_step h n At_lock s = (At_alloc, s\<lparr>avail_ctx := avail_ctx s + 1\<rparr>)
         \<and> find_step h n At_alloc (s\<lparr>avail_ctx := avail_ctx s + 1\<rparr>) =
             (Returned p, s\<lparr>avail_ctx := avail_ctx s + 1, heap_next := ps,
                             ctx_mem := (ctx_mem s)(p \<mapsto> empty_ctx h),
                             trace := trace s @ [Cifsd_alloc p]\<rparr>)
         \<and> cifsd_find_crypto_ctx h n s =
             Some (p, s\<lparr>avail_ctx := avail_ctx s + 1, heap_next := ps,
                        ctx_mem := (ctx_mem s)(p \<mapsto> empty_ctx h),
                        trace := trace s @ [Cifsd_alloc p]\<rparr>)
         \<and> idle_ctx (s\<lparr>avail_ctx := avail_ctx s + 1, heap_next := ps,
                        ctx_mem := (ctx_mem s)(p \<mapsto> empty_ctx h),
                        trace := trace s @ [Cifsd_alloc p]\<rparr>) = []"
proof -
  let ?s1 = "s\<lparr>avail_ctx := avail_ctx s + 1\<rparr>"
  have lock: "find_locked n s = (At_alloc, ?s1)"
    using assms(1,2) by (simp add: find_locked_def)
  have "cifsd_alloc h ?s1 =
          (p, ?s1\<lparr>heap_next := ps, ctx_mem := (ctx_mem ?s1)(p \<mapsto> empty_ctx h),
                  trace := trace ?s1 @ [Cifsd_alloc p]\<rparr>)"
    using assms(3,4) by (intro cifsd_alloc_ok) simp_all
  then have alloc: "find_alloc h ?s1 =
          (Returned p, s\<lparr>avail_ctx := avail_ctx s + 1, heap_next := ps,
                          ctx_mem := (ctx_mem s)(p \<mapsto> empty_ctx h),
                          trace := trace s @ [Cifsd_alloc p]\<rparr>)"
    using assms(4) by (simp add: find_alloc_def ctx_alloc_def)
  show ?thesis
    using lock alloc assms(1)
    by (simp add: cifsd_find_crypto_ctx_def find_loop_At_lock find_loop_At_alloc
        find_loop_Returned)
qed

text \<open>
  Claim C1, at \<open>example_state\<close> with its idle list emptied: the counter goes from 1
  to 2 and the caller gets the new context 200.
\<close>

theorem find_grows_witness:
  "cifsd_find_crypto_ctx example_h 4 (example_state\<lparr>idle_ctx := []\<rparr>) =
     Some (200, example_state\<lparr>idle_ctx := [], avail_ctx := 2, heap_next := [300],
                  ctx_mem := (ctx_mem example_state)(200 \<mapsto> empty_ctx example_h),
                  trace := [Cifsd_alloc 200]\<rparr>)"
  using find_grows [of "example_state\<lparr>idle_ctx := []\<rparr>" 4 200 "[300]" example_h]
  by (simp add: example_state_def NULL_def)

subsection \<open>Release\<close>

text \<open>
  Claim C2. Releasing a context that is not \<^verbatim>\<open>NULL\<close>: with the counter at most
  \<^verbatim>\<open>num_online_cpus()\<close> the context is put at the head of the idle list and
  \<^verbatim>\<open>wake_up\<close> is called, the counter unchanged; otherwise the counter drops by one
  and the context (a live one) is freed with all its handles, the idle list unchanged.
\<close>

theorem release_pools_or_destroys:
  assumes "ctx \<noteq> NULL"
  shows "(avail_ctx s \<le> n \<longrightarrow>
            cifsd_release_crypto_ctx n ctx s =
              Some (s\<lparr>idle_ctx := ctx # idle_ctx s, trace := trace s @ [Wake_up]\<rparr>))
         \<and> (\<not> avail_ctx s \<le> n \<longrightarrow>
              (\<forall>c. ctx_mem s ctx = Some c \<longrightarrow>
                 cifsd_release_crypto_ctx n ctx s =
                   Some (s\<lparr>avail_ctx := avail_ctx s - 1,
                           ctx_mem := (ctx_mem s)(ctx := None),
                           trace := trace s @ shash_frees (desc c) @ aead_frees (ccmaes c)
                                      @ [Cifsd_free ctx]\<rparr>)))"
  using assms
  by (simp add: cifsd_release_crypto_ctx_def emit_def ctx_free_live)

text \<open>
  Claim C2, at the seed context of \<open>example_state\<close>: pooled with the counter at 1 and
  four processors, freed with the counter at 5.
\<close>

theorem release_pools_or_destroys_witness:
  "cifsd_release_crypto_ctx 4 100 (example_state\<lparr>idle_ctx := []\<rparr>) =
     Some (example_state\<lparr>idle_ctx := [100], trace := [Wake_up]\<rparr>)
   \<and> cifsd_release_crypto_ctx 4 100 (example_state\<lparr>idle_ctx := [], avail_ctx := 5\<rparr>) =
       Some (example_state\<lparr>idle_ctx := [], avail_ctx := 4, ctx_mem := Map.empty,
               trace := [Cifsd_free 100]\<rparr>)"
  using release_pools_or_destroys [of 100 "example_state\<lparr>idle_ctx := []\<rparr>" 4]
    release_pools_or_destroys [of 100 "example_state\<lparr>idle_ctx := [], avail_ctx := 5\<rparr>" 4]
  by (simp add: example_state_def NULL_def empty_ctx_def example_h_def shash_frees_def
      aead_frees_def)

subsection \<open>The counter and the bound\<close>

text \<open>
  Claim C3, as stated, fails. With one processor online and two callers, the first
  takes the seed context; the second finds the idle list empty and the counter 1 not
  greater than 1, increments it and is about to allocate: the counter is 2 while it
  creates its context.
\<close>

theorem counter_exceeds_bound_counterexample:
  "booted example_h example_unbooted 2 = Some example_booted
   \<and> run example_h 1 [Call_find 0, Step 0, Call_find 1, Step 1] example_booted =
       Some example_growing
   \<and> callers example_growing ! 1 = In_find At_alloc
   \<and> \<not> avail_ctx (kernel example_growing) \<le> 1"
proof (intro conjI)
  show "booted example_h example_unbooted 2 = Some example_booted" by (rule example_boots)
  show "run example_h 1 [Call_find 0, Step 0, Call_find 1, Step 1] example_booted =
       Some example_growing"
    by (rule example_grows)
  show "callers example_growing ! 1 = In_find At_alloc" by (simp add: example_growing_def)
  show "\<not> avail_ctx (kernel example_growing) \<le> 1"
    by (simp add: example_growing_def word_le_nat_alt)
qed

text \<open>
  Claim C3, as amended. In every state that callers reach from an initialised pool,
  under any interleaving of their steps and with \<^verbatim>\<open>num_online_cpus()\<close> fixed at
  \<open>n\<close>, the counter is at most \<open>n + 1\<close>. A step of
  \<^verbatim>\<open>cifsd_find_crypto_ctx\<close> increments the counter only in the section under the
  lock, with the idle list empty and the counter at most \<open>n\<close> before the increment.
\<close>

theorem counter_at_most_bound_plus_one:
  assumes "booted h s0 k = Some cfg0" and "run h n acts cfg0 = Some cfg"
  shows "unat (avail_ctx (kernel cfg)) \<le> unat n + 1
         \<and> (\<forall>pc s pc' s'. find_step h n pc s = (pc', s') \<and> avail_ctx s' = avail_ctx s + 1 \<longrightarrow>
               pc = At_lock \<and> idle_ctx s = [] \<and> avail_ctx s \<le> n)"
proof
  show "unat (avail_ctx (kernel cfg)) \<le> unat n + 1"
  proof (cases "unat n + 1 < 2 ^ 32")
    case True
    from pool_inv_run [OF assms(2) pool_inv_booted [OF assms(1)] True]
    show ?thesis by (simp add: pool_inv_def)
  next
    case False
    have "unat (avail_ctx (kernel cfg)) < 2 ^ 32"
      using unsigned_less [of "avail_ctx (kernel cfg)", where 'a = nat] by simp
    with False show ?thesis by simp
  qed
  show "\<forall>pc s pc' s'. find_step h n pc s = (pc', s') \<and> avail_ctx s' = avail_ctx s + 1 \<longrightarrow>
               pc = At_lock \<and> idle_ctx s = [] \<and> avail_ctx s \<le> n"
    using find_step_increment [of h n] by blast
qed

text \<open>
  Claim C3 as amended, at the run above: the counter is 2, which is the bound plus
  one, and the increment came from a counter of 1, within the bound.
\<close>

theorem counter_at_most_bound_plus_one_witness:
  "unat (avail_ctx (kernel example_growing)) \<le> unat (1 :: 32 word) + 1
   \<and> avail_ctx (kernel example_booted\<lparr>idle_ctx := []\<rparr>) \<le> 1"
proof -
  note t = counter_at_most_bound_plus_one [OF example_boots example_grows]
  from t have "unat (avail_ctx (kernel example_growing)) \<le> unat (1 :: 32 word) + 1" by (rule conjunct1)
  moreover from t [THEN conjunct2, rule_format, OF example_reserves]
  have "avail_ctx (kernel example_booted\<lparr>idle_ctx := []\<rparr>) \<le> 1" by simp
  ultimately show ?thesis by simp
qed

subsection \<open>Acquire when the allocation fails\<close>

text \<open>
  Claim C4. With the idle list empty, the counter within the bound and an allocator
  that fails: the step under the lock increments the counter, the allocation step
  decrements it to what it was and leaves the caller in \<^verbatim>\<open>wait_event\<close>; from
  there a step stays in the wait while the idle list is empty and goes back to the top
  of the loop once it is not. Whatever other callers did in between, a failed
  allocation takes one off the counter and leaves the idle list alone. With no other
  caller the call does not return (it does not return \<^verbatim>\<open>NULL\<close>). Whenever
  \<^verbatim>\<open>cifsd_find_crypto_ctx\<close> does return, on a pool whose idle list holds no
  \<^verbatim>\<open>NULL\<close>, what it returns is not \<^verbatim>\<open>NULL\<close>; and in every state that callers
  reach from an initialised pool, a caller that has returned from it holds a context
  that is not \<^verbatim>\<open>NULL\<close>.
\<close>

theorem find_alloc_failure_blocks:
  assumes "idle_ctx s = []" and "avail_ctx s \<le> n"
    and "heap_next s = [] \<or> hd (heap_next s) = NULL"
  shows "\<exists>s2. find_step h n At_lock s = (At_alloc, s\<lparr>avail_ctx := avail_ctx s + 1\<rparr>)
           \<and> find_step h n At_alloc (s\<lparr>avail_ctx := avail_ctx s + 1\<rparr>) = (At_wait, s2)
           \<and> avail_ctx s2 = avail_ctx s \<and> idle_ctx s2 = [] \<and> ctx_mem s2 = ctx_mem s
           \<and> (\<forall>s1. heap_next s1 = [] \<or> hd (heap_next s1) = NULL \<longrightarrow>
                  fst (find_step h n At_alloc s1) = At_wait
                  \<and> avail_ctx (snd (find_step h n At_alloc s1)) = avail_ctx s1 - 1
                  \<and> idle_ctx (snd (find_step h n At_alloc s1)) = idle_ctx s1)
           \<and> (\<forall>s3. find_step h n At_wait s3 =
                      (if idle_ctx s3 \<noteq> [] then At_lock else At_wait, s3))
           \<and> cifsd_find_crypto_ctx h n s = None
           \<and> (\<forall>s0 c s'. NULL \<notin> set (idle_ctx s0)
                  \<and> cifsd_find_crypto_ctx h n s0 = Some (c, s') \<longrightarrow> c \<noteq> NULL)
           \<and> (\<forall>s0 k acts cfg0 cfg t ctx.
                  booted h s0 k = Some cfg0 \<and> run h n acts cfg0 = Some cfg
                  \<and> t < length (callers cfg) \<and> callers cfg ! t = In_find (Returned ctx) \<longrightarrow>
                  ctx \<noteq> NULL)"
proof -
  let ?s1 = "s\<lparr>avail_ctx := avail_ctx s + 1\<rparr>"
  obtain p s1' where a: "cifsd_alloc h ?s1 = (p, s1')" by (cases "cifsd_alloc h ?s1")
  have hn: "heap_next ?s1 = [] \<or> hd (heap_next ?s1) = NULL" using assms(3) by simp
  from cifsd_alloc_fail [OF hn, of h] a
  have f: "p = NULL" "idle_ctx s1' = []" "avail_ctx s1' = avail_ctx s + 1"
    "ctx_mem s1' = ctx_mem s"
    using assms(1) by simp_all
  let ?s2 = "s1'\<lparr>avail_ctx := avail_ctx s1' - 1\<rparr>"
  have lock: "find_step h n At_lock s = (At_alloc, ?s1)"
    using assms(1,2) by (simp add: find_locked_def)
  have alloc: "find_step h n At_alloc ?s1 = (At_wait, ?s2)"
    using a f by (simp add: find_alloc_def ctx_alloc_def)
  have restored: "avail_ctx ?s2 = avail_ctx s" "idle_ctx ?s2 = []" "ctx_mem ?s2 = ctx_mem s"
    using f by simp_all
  have wait: "\<forall>s3. find_step h n At_wait s3 =
                      (if idle_ctx s3 \<noteq> [] then At_lock else At_wait, s3)"
    by (simp add: find_wait_def)
  have undo: "\<forall>s1. heap_next s1 = [] \<or> hd (heap_next s1) = NULL \<longrightarrow>
                  fst (find_step h n At_alloc s1) = At_wait
                  \<and> avail_ctx (snd (find_step h n At_alloc s1)) = avail_ctx s1 - 1
                  \<and> idle_ctx (snd (find_step h n At_alloc s1)) = idle_ctx s1"
    by (intro allI impI) (rule find_alloc_fails)
  have none: "cifsd_find_crypto_ctx h n s = None"
    using lock alloc restored(2)
    by (simp add: cifsd_find_crypto_ctx_def find_loop_At_lock find_loop_At_alloc
        find_loop_sleeps)
  have "c \<noteq> NULL"
    if "NULL \<notin> set (idle_ctx s0)" and "cifsd_find_crypto_ctx h n s0 = Some (c, s')"
    for s0 c s'
    using find_loop_nonnull [of h n At_lock s0 "(c, s')"] that
    by (simp add: cifsd_find_crypto_ctx_def)
  then have nonnull: "\<forall>s0 c s'. NULL \<notin> set (idle_ctx s0)
                  \<and> cifsd_find_crypto_ctx h n s0 = Some (c, s') \<longrightarrow> c \<noteq> NULL"
    by blast
  have "ctx \<noteq> NULL"
    if "booted h s0 k = Some cfg0" and "run h n acts cfg0 = Some cfg"
      and "t < length (callers cfg)" and "callers cfg ! t = In_find (Returned ctx)"
    for s0 k acts cfg0 cfg t ctx
  proof -
    from null_free_run [OF that(2) null_free_booted [OF that(1)]]
    have "In_find (Returned NULL) \<notin> set (callers cfg)" by (simp add: null_free_def)
    moreover from that(3,4) have "In_find (Returned ctx) \<in> set (callers cfg)"
      by (metis nth_mem)
    ultimately show ?thesis by auto
  qed
  then have held: "\<forall>s0 k acts cfg0 cfg t ctx.
                  booted h s0 k = Some cfg0 \<and> run h n acts cfg0 = Some cfg
                  \<and> t < length (callers cfg) \<and> callers cfg ! t = In_find (Returned ctx) \<longrightarrow>
                  ctx \<noteq> NULL"
    by blast
  from lock alloc restored undo wait none nonnull held show ?thesis by blast
qed

text \<open>
  Claim C4, at \<open>example_state\<close> with the idle list and the allocator emptied; the
  wait is left at \<open>example_state\<close>, whose idle list holds the seed, and the contexts
  100 and 200 that callers get there and in a run of two callers are not \<^verbatim>\<open>NULL\<close>.
\<close>

theorem find_alloc_failure_blocks_witness:
  "cifsd_find_crypto_ctx example_h 4 example_exhausted = None
   \<and> find_step example_h 4 At_lock example_exhausted =
       (At_alloc, example_exhausted\<lparr>avail_ctx := avail_ctx example_exhausted + 1\<rparr>)
   \<and> fst (find_step example_h 4 At_alloc
             (example_exhausted\<lparr>avail_ctx := avail_ctx example_exhausted + 1\<rparr>)) = At_wait
   \<and> avail_ctx (snd (find_step example_h 4 At_alloc
             (example_exhausted\<lparr>avail_ctx := avail_ctx example_exhausted + 1\<rparr>))) =
       avail_ctx example_exhausted
   \<and> avail_ctx (snd (find_step example_h 4 At_alloc example_exhausted)) =
       avail_ctx example_exhausted - 1
   \<and> find_step example_h 4 At_wait example_exhausted = (At_wait, example_exhausted)
   \<and> find_step example_h 4 At_wait example_state = (At_lock, example_state)
   \<and> (100 :: ptr) \<noteq> NULL \<and> (200 :: ptr) \<noteq> NULL"
proof -
  note r = example_exhausted_runs
  from find_alloc_failure_blocks [OF r(1,2,3), of example_h] obtain s2 where
    a: "find_step example_h 4 At_lock example_exhausted =
          (At_alloc, example_exhausted\<lparr>avail_ctx := avail_ctx example_exhausted + 1\<rparr>)"
    and b: "find_step example_h 4 At_alloc
              (example_exhausted\<lparr>avail_ctx := avail_ctx example_exhausted + 1\<rparr>) = (At_wait, s2)"
    and c: "avail_ctx s2 = avail_ctx example_exhausted"
    and u: "\<forall>s1. heap_next s1 = [] \<or> hd (heap_next s1) = NULL \<longrightarrow>
                  fst (find_step example_h 4 At_alloc s1) = At_wait
                  \<and> avail_ctx (snd (find_step example_h 4 At_alloc s1)) = avail_ctx s1 - 1
                  \<and> idle_ctx (snd (find_step example_h 4 At_alloc s1)) = idle_ctx s1"
    and w: "\<forall>s3. find_step example_h 4 At_wait s3 =
                   (if idle_ctx s3 \<noteq> [] then At_lock else At_wait, s3)"
    and n: "cifsd_find_crypto_ctx example_h 4 example_exhausted = None"
    and nn: "\<forall>s0 c s'. NULL \<notin> set (idle_ctx s0)
                  \<and> cifsd_find_crypto_ctx example_h 4 s0 = Some (c, s') \<longrightarrow> c \<noteq> NULL"
    and held: "\<forall>s0 k acts cfg0 cfg t ctx.
                  booted example_h s0 k = Some cfg0 \<and> run example_h 4 acts cfg0 = Some cfg
                  \<and> t < length (callers cfg) \<and> callers cfg ! t = In_find (Returned ctx) \<longrightarrow>
                  ctx \<noteq> NULL"
    by blast
  from held example_both_acquire have "(200 :: ptr) \<noteq> NULL" by blast
  from nn r(4) have "(100 :: ptr) \<noteq> NULL" by blast
  moreover from u r(3)
  have "avail_ctx (snd (find_step example_h 4 At_alloc example_exhausted)) =
          avail_ctx example_exhausted - 1"
    by blast
  moreover from w r(1) have "find_step example_h 4 At_wait example_exhausted = (At_wait, example_exhausted)"
    by simp
  moreover from w have "find_step example_h 4 At_wait example_state = (At_lock, example_state)"
    by (simp add: example_state_def)
  ultimately show ?thesis using a b c n \<open>(200 :: ptr) \<noteq> NULL\<close> by simp
qed

subsection \<open>Lookup when the provider refuses\<close>

text \<open>
  Claim C5, as stated, fails: the caller is not given a context that it must still
  release. At \<open>example_refusing\<close> the lookup takes context 100 from the idle list, the
  provider refuses, and the lookup returns \<^verbatim>\<open>NULL\<close> with context 100 already back
  in the idle list.
\<close>

theorem find_releases_on_unavailable_counterexample:
  "cifsd_find_crypto_ctx example_h 4 example_refusing =
     Some (100, example_refusing\<lparr>idle_ctx := []\<rparr>)
   \<and> crypto_shash_ctx_find example_h 4 3 example_refusing = Some (NULL, example_refused)
   \<and> 100 \<in> set (idle_ctx example_refused)"
  by (simp add: crypto_shash_ctx_find_def crypto_shash_ctx_slot_def
      cifsd_release_crypto_ctx_def cifsd_find_crypto_ctx_def find_loop_At_lock find_locked_def
      find_loop_Returned deref_def alloc_shash_desc_def crypto_alloc_shash_def
      provider_alloc_def emit_def IS_ERR_def NULL_def
      example_refusing_def example_refused_def example_state_def example_h_def empty_ctx_def
      replicate_update_same)

text \<open>
  Claim C5, as amended. Let \<^verbatim>\<open>cifsd_find_crypto_ctx\<close> give a live context whose slot
  for the identifier is empty, and let \<^verbatim>\<open>alloc_shash_desc\<close> (or \<^verbatim>\<open>alloc_aead\<close>)
  report that the algorithm is unavailable. Then the lookup returns \<^verbatim>\<open>NULL\<close>, the
  slot is still empty, and the lookup itself has passed the context to
  \<^verbatim>\<open>cifsd_release_crypto_ctx\<close>, once: the state it returns is the one that release
  gives, with the context back in the idle list when the counter is within the bound
  and freed otherwise. The caller receives no context.
\<close>

theorem find_releases_on_unavailable:
  assumes "cifsd_find_crypto_ctx h n s = Some (ctx, s1)" and "deref s1 ctx = Some c"
    and "0 \<le> idx"
  shows "(idx < CRYPTO_SHASH_MAX h \<and> nat idx < length (desc c) \<and> desc c ! nat idx = None
            \<and> alloc_shash_desc h idx s1 = Some (None, s2) \<longrightarrow>
          (\<exists>s3. crypto_shash_ctx_find h n idx s = Some (NULL, s3)
                \<and> cifsd_release_crypto_ctx n ctx s2 = Some s3
                \<and> shash_slot s2 ctx idx = None
                \<and> (avail_ctx s1 \<le> n \<longrightarrow> idle_ctx s3 = ctx # idle_ctx s1)
                \<and> (\<not> avail_ctx s1 \<le> n \<longrightarrow>
                      idle_ctx s3 = idle_ctx s1 \<and> avail_ctx s3 = avail_ctx s1 - 1
                      \<and> ctx_mem s3 ctx = None)))
         \<and> (idx < CRYPTO_AEAD_MAX h \<and> nat idx < length (ccmaes c)
              \<and> ccmaes c ! nat idx = Tfm_NULL \<and> alloc_aead h idx s1 = (Tfm_NULL, s2) \<longrightarrow>
            (\<exists>s3. crypto_aead_ctx_find h n idx s = Some (NULL, s3)
                  \<and> cifsd_release_crypto_ctx n ctx s2 = Some s3
                  \<and> aead_slot s2 ctx idx = Tfm_NULL
                  \<and> (avail_ctx s1 \<le> n \<longrightarrow> idle_ctx s3 = ctx # idle_ctx s1)
                  \<and> (\<not> avail_ctx s1 \<le> n \<longrightarrow>
                        idle_ctx s3 = idle_ctx s1 \<and> avail_ctx s3 = avail_ctx s1 - 1
                        \<and> ctx_mem s3 ctx = None)))"
proof (intro conjI impI)
  assume a: "idx < CRYPTO_SHASH_MAX h \<and> nat idx < length (desc c) \<and> desc c ! nat idx = None
            \<and> alloc_shash_desc h idx s1 = Some (None, s2)"
  then have "idx < CRYPTO_SHASH_MAX h" and "nat idx < length (desc c)"
    and "desc c ! nat idx = None" and "alloc_shash_desc h idx s1 = Some (None, s2)"
    by blast+
  then show "\<exists>s3. crypto_shash_ctx_find h n idx s = Some (NULL, s3)
                \<and> cifsd_release_crypto_ctx n ctx s2 = Some s3
                \<and> shash_slot s2 ctx idx = None
                \<and> (avail_ctx s1 \<le> n \<longrightarrow> idle_ctx s3 = ctx # idle_ctx s1)
                \<and> (\<not> avail_ctx s1 \<le> n \<longrightarrow>
                      idle_ctx s3 = idle_ctx s1 \<and> avail_ctx s3 = avail_ctx s1 - 1
                      \<and> ctx_mem s3 ctx = None)"
    by (rule shash_find_unavailable [OF assms])
next
  assume a: "idx < CRYPTO_AEAD_MAX h \<and> nat idx < length (ccmaes c)
              \<and> ccmaes c ! nat idx = Tfm_NULL \<and> alloc_aead h idx s1 = (Tfm_NULL, s2)"
  then have "idx < CRYPTO_AEAD_MAX h" and "nat idx < length (ccmaes c)"
    and "ccmaes c ! nat idx = Tfm_NULL" and "alloc_aead h idx s1 = (Tfm_NULL, s2)"
    by blast+
  then show "\<exists>s3. crypto_aead_ctx_find h n idx s = Some (NULL, s3)
                  \<and> cifsd_release_crypto_ctx n ctx s2 = Some s3
                  \<and> aead_slot s2 ctx idx = Tfm_NULL
                  \<and> (avail_ctx s1 \<le> n \<longrightarrow> idle_ctx s3 = ctx # idle_ctx s1)
                  \<and> (\<not> avail_ctx s1 \<le> n \<longrightarrow>
                        idle_ctx s3 = idle_ctx s1 \<and> avail_ctx s3 = avail_ctx s1 - 1
                        \<and> ctx_mem s3 ctx = None)"
    by (rule aead_find_unavailable [OF assms])
qed

text \<open>
  Claim C5 as amended, at \<open>example_refusing\<close> for SHA-512 and for CCM: with four
  processors both lookups return \<^verbatim>\<open>NULL\<close> and leave the seed context in the idle
  list; with the bound at 0 the lookup returns \<^verbatim>\<open>NULL\<close> and has freed the context.
\<close>

theorem find_releases_on_unavailable_witness:
  "(\<exists>s3. crypto_shash_ctx_find example_h 4 3 example_refusing = Some (NULL, s3)
          \<and> idle_ctx s3 = [100])
   \<and> (\<exists>s3. crypto_aead_ctx_find example_h 4 1 example_refusing = Some (NULL, s3)
            \<and> idle_ctx s3 = [100])
   \<and> (\<exists>s3. crypto_shash_ctx_find example_h 0 3 example_refusing = Some (NULL, s3)
            \<and> idle_ctx s3 = [] \<and> avail_ctx s3 = 0 \<and> ctx_mem s3 100 = None)"
proof -
  note r = example_refusing_runs and r0 = example_refusing_runs0
  have i: "(0::int) \<le> 3" "(0::int) \<le> 1" by simp_all
  have a: "3 < CRYPTO_SHASH_MAX example_h \<and> nat 3 < length (desc (empty_ctx example_h))
           \<and> desc (empty_ctx example_h) ! nat 3 = None
           \<and> alloc_shash_desc example_h 3 (example_refusing\<lparr>idle_ctx := []\<rparr>) =
               Some (None, example_refusing\<lparr>idle_ctx := [], tfm_next := [],
                             trace := [Crypto_alloc_shash ''sha512'' Tfm_ERR]\<rparr>)"
    by (simp add: r(3)) (simp add: example_h_def empty_ctx_def)
  have b: "1 < CRYPTO_AEAD_MAX example_h \<and> nat 1 < length (ccmaes (empty_ctx example_h))
           \<and> ccmaes (empty_ctx example_h) ! nat 1 = Tfm_NULL
           \<and> alloc_aead example_h 1 (example_refusing\<lparr>idle_ctx := []\<rparr>) =
               (Tfm_NULL, example_refusing\<lparr>idle_ctx := [], tfm_next := [],
                             trace := [Crypto_alloc_aead ''ccm(aes)'' Tfm_ERR]\<rparr>)"
    by (simp add: r(4)) (simp add: example_h_def empty_ctx_def)
  from find_releases_on_unavailable [OF r(1) r(2) i(1), THEN conjunct1, THEN mp, OF a] r(5,6)
  have "\<exists>s3. crypto_shash_ctx_find example_h 4 3 example_refusing = Some (NULL, s3)
          \<and> idle_ctx s3 = [100]"
    by auto
  moreover
  from find_releases_on_unavailable [OF r(1) r(2) i(2), THEN conjunct2, THEN mp, OF b] r(5,6)
  have "\<exists>s3. crypto_aead_ctx_find example_h 4 1 example_refusing = Some (NULL, s3)
          \<and> idle_ctx s3 = [100]"
    by auto
  moreover
  from find_releases_on_unavailable [OF r0(1) r(2) i(1), THEN conjunct1, THEN mp, OF a]
    r0(2,3) r(6)
  have "\<exists>s3. crypto_shash_ctx_find example_h 0 3 example_refusing = Some (NULL, s3)
            \<and> idle_ctx s3 = [] \<and> avail_ctx s3 = 0 \<and> ctx_mem s3 100 = None"
    by auto
  ultimately show ?thesis by blast
qed

subsection \<open>A populated slot is reused\<close>

text \<open>
  Claim C6. The slot access of the two lookups: with the slot populated it returns
  the handle in the slot and the state is unchanged, so neither the factory nor the
  provider was called. Hence when a slot access has returned a handle, the next one on
  the same context returns the same handle and changes nothing; over the two, the
  provider was asked for exactly one transform when the slot was empty at first, and
  for none when it was populated. The whole lookup, when the first idle context has
  the slot populated, returns that context and changes nothing but the idle list.
\<close>

theorem slot_is_cached:
  "(\<forall>d. shash_slot s ctx idx = Some d \<longrightarrow>
        crypto_shash_ctx_slot h idx ctx s = Some (Some d, s))
   \<and> (\<forall>d s1. crypto_shash_ctx_slot h idx ctx s = Some (Some d, s1) \<longrightarrow>
          crypto_shash_ctx_slot h idx ctx s1 = Some (Some d, s1)
          \<and> provider_calls (trace s1) =
              provider_calls (trace s) + (if shash_slot s ctx idx = None then 1 else 0))
   \<and> (aead_slot s ctx idx \<noteq> Tfm_NULL \<longrightarrow>
        crypto_aead_ctx_slot h idx ctx s = Some (aead_slot s ctx idx, s))
   \<and> (\<forall>t s1. crypto_aead_ctx_slot h idx ctx s = Some (t, s1) \<and> t \<noteq> Tfm_NULL \<longrightarrow>
          crypto_aead_ctx_slot h idx ctx s1 = Some (t, s1)
          \<and> provider_calls (trace s1) =
              provider_calls (trace s) + (if aead_slot s ctx idx = Tfm_NULL then 1 else 0))
   \<and> (\<forall>rest d. idle_ctx s = ctx # rest \<and> idx < CRYPTO_SHASH_MAX h
          \<and> shash_slot s ctx idx = Some d \<longrightarrow>
          crypto_shash_ctx_find h n idx s = Some (ctx, s\<lparr>idle_ctx := rest\<rparr>))
   \<and> (\<forall>rest. idle_ctx s = ctx # rest \<and> idx < CRYPTO_AEAD_MAX h
          \<and> aead_slot s ctx idx \<noteq> Tfm_NULL \<longrightarrow>
          crypto_aead_ctx_find h n idx s = Some (ctx, s\<lparr>idle_ctx := rest\<rparr>))"
proof (intro conjI allI impI)
  fix d assume "shash_slot s ctx idx = Some d"
  then show "crypto_shash_ctx_slot h idx ctx s = Some (Some d, s)" by (rule shash_slot_hit)
next
  fix d s1 assume a: "crypto_shash_ctx_slot h idx ctx s = Some (Some d, s1)"
  from shash_slot_fill(1) [OF a] show "crypto_shash_ctx_slot h idx ctx s1 = Some (Some d, s1)"
    by (rule shash_slot_hit)
  from shash_slot_fill(2) [OF a]
  show "provider_calls (trace s1) =
          provider_calls (trace s) + (if shash_slot s ctx idx = None then 1 else 0)" .
next
  assume "aead_slot s ctx idx \<noteq> Tfm_NULL"
  then show "crypto_aead_ctx_slot h idx ctx s = Some (aead_slot s ctx idx, s)"
    by (rule aead_slot_hit)
next
  fix t s1 assume a: "crypto_aead_ctx_slot h idx ctx s = Some (t, s1) \<and> t \<noteq> Tfm_NULL"
  then have b: "crypto_aead_ctx_slot h idx ctx s = Some (t, s1)" and c: "t \<noteq> Tfm_NULL"
    by simp_all
  from aead_slot_fill(1) [OF b c] c aead_slot_hit [of s1 ctx idx h]
  show "crypto_aead_ctx_slot h idx ctx s1 = Some (t, s1)" by simp
  from aead_slot_fill(2) [OF b c]
  show "provider_calls (trace s1) =
          provider_calls (trace s) + (if aead_slot s ctx idx = Tfm_NULL then 1 else 0)" .
next
  fix rest d
  assume "idle_ctx s = ctx # rest \<and> idx < CRYPTO_SHASH_MAX h \<and> shash_slot s ctx idx = Some d"
  then show "crypto_shash_ctx_find h n idx s = Some (ctx, s\<lparr>idle_ctx := rest\<rparr>)"
    using find_cached(1) [of s ctx rest idx h d n] by blast
next
  fix rest
  assume "idle_ctx s = ctx # rest \<and> idx < CRYPTO_AEAD_MAX h \<and> aead_slot s ctx idx \<noteq> Tfm_NULL"
  then show "crypto_aead_ctx_find h n idx s = Some (ctx, s\<lparr>idle_ctx := rest\<rparr>)"
    using find_cached(2) [of s ctx rest idx h n] by blast
qed

text \<open>
  Claim C6, at the seed context of \<open>example_state\<close>, slot SHA-512 and slot CCM: the
  first access fills the slot with one call of the provider, the second returns the
  same handle, and so does a lookup on the pool that holds the filled context.
\<close>

theorem slot_is_cached_witness:
  "crypto_shash_ctx_slot example_h 3 100 example_state =
     Some (Some \<lparr>shash_addr = 200, tfm = Tfm 7\<rparr>, example_filled)
   \<and> crypto_shash_ctx_slot example_h 3 100 example_filled =
       Some (Some \<lparr>shash_addr = 200, tfm = Tfm 7\<rparr>, example_filled)
   \<and> provider_calls (trace example_filled) = provider_calls (trace example_state) + 1
   \<and> crypto_aead_ctx_slot example_h 1 100 example_state = Some (Tfm 7, example_filled_aead)
   \<and> crypto_aead_ctx_slot example_h 1 100 example_filled_aead = Some (Tfm 7, example_filled_aead)
   \<and> provider_calls (trace example_filled_aead) = provider_calls (trace example_state) + 1
   \<and> crypto_shash_ctx_find example_h 4 3 example_filled =
       Some (100, example_filled\<lparr>idle_ctx := []\<rparr>)
   \<and> crypto_aead_ctx_find example_h 4 1 example_filled_aead =
       Some (100, example_filled_aead\<lparr>idle_ctx := []\<rparr>)"
proof -
  note r = example_slot_runs
  note hit = slot_is_cached [of example_filled 100 3 example_h, THEN conjunct1, rule_format, OF r(5)]
  note fill = slot_is_cached [of example_state 100 3 example_h, THEN conjunct2, THEN conjunct1,
      rule_format, OF r(1)]
  have t: "Tfm 7 \<noteq> Tfm_NULL" by simp
  note ahit = slot_is_cached [of example_filled_aead 100 1 example_h, THEN conjunct2,
      THEN conjunct2, THEN conjunct1]
  note afill = slot_is_cached [of example_state 100 1 example_h, THEN conjunct2,
      THEN conjunct2, THEN conjunct2, THEN conjunct1, rule_format, OF conjI, OF r(2) t]
  note find = slot_is_cached [of example_filled 100 3 example_h 4, THEN conjunct2,
      THEN conjunct2, THEN conjunct2, THEN conjunct2, THEN conjunct1, rule_format,
      OF example_filled_idle(1)]
  note afind = slot_is_cached [of example_filled_aead 100 1 example_h 4, THEN conjunct2,
      THEN conjunct2, THEN conjunct2, THEN conjunct2, THEN conjunct2, rule_format,
      OF example_filled_idle(2)]
  show ?thesis
    using hit fill ahit afill find afind by (simp add: r)
qed

subsection \<open>Acquire from a non-empty idle list\<close>

text \<open>
  Claim C7. When the idle list is not empty, \<^verbatim>\<open>cifsd_find_crypto_ctx\<close> returns its
  first member and leaves the rest of it; the counter, the live contexts, the allocator
  and the trace are as before, so nothing was constructed.
\<close>

theorem find_takes_idle:
  assumes "idle_ctx s = ctx # rest"
  shows "cifsd_find_crypto_ctx h n s = Some (ctx, s\<lparr>idle_ctx := rest\<rparr>)
         \<and> avail_ctx (s\<lparr>idle_ctx := rest\<rparr>) = avail_ctx s
         \<and> ctx_mem (s\<lparr>idle_ctx := rest\<rparr>) = ctx_mem s
         \<and> heap_next (s\<lparr>idle_ctx := rest\<rparr>) = heap_next s
         \<and> trace (s\<lparr>idle_ctx := rest\<rparr>) = trace s"
  using assms
  by (simp add: cifsd_find_crypto_ctx_def find_loop_At_lock find_locked_def find_loop_Returned)

text \<open>
  Claim C7, at \<open>example_state\<close>: the caller gets the seed context 100.
\<close>

theorem find_takes_idle_witness:
  "cifsd_find_crypto_ctx example_h 4 example_state = Some (100, example_state\<lparr>idle_ctx := []\<rparr>)
   \<and> idle_ctx example_state = [100]"
  using find_takes_idle [of example_state 100 "[]" example_h 4]
  by (simp add: example_state_def)

subsection \<open>Identifiers at or above the bound of the family\<close>

text \<open>
  Claim C8. With an identifier at or above \<^verbatim>\<open>CRYPTO_SHASH_MAX\<close>, respectively
  \<^verbatim>\<open>CRYPTO_AEAD_MAX\<close>, the lookup of the family returns \<^verbatim>\<open>NULL\<close> and the whole
  state (idle list, counter, contexts, allocator, trace) is the one it was called in.
\<close>

theorem find_rejects_out_of_range:
  "(CRYPTO_SHASH_MAX h \<le> idx \<longrightarrow> crypto_shash_ctx_find h n idx s = Some (NULL, s))
   \<and> (CRYPTO_AEAD_MAX h \<le> idx \<longrightarrow> crypto_aead_ctx_find h n idx s = Some (NULL, s))"
  by (simp add: crypto_shash_ctx_find_def crypto_aead_ctx_find_def)

text \<open>
  Claim C8, at identifier 6 with the example header.
\<close>

theorem find_rejects_out_of_range_witness:
  "CRYPTO_SHASH_MAX example_h \<le> 6 \<and> CRYPTO_AEAD_MAX example_h \<le> 6
   \<and> crypto_shash_ctx_find example_h 4 6 example_state = Some (NULL, example_state)
   \<and> crypto_aead_ctx_find example_h 4 6 example_state = Some (NULL, example_state)"
  using find_rejects_out_of_range [of example_h 6 4 example_state]
  by (simp add: example_h_def)

subsection \<open>\<^verbatim>\<open>cifsd_crypto_create\<close>\<close>

text \<open>
  Claim C9. Where the allocator gives a block, \<^verbatim>\<open>cifsd_crypto_create\<close> returns 0 with
  the counter at 1, the idle list holding exactly that new, empty context, and one
  allocation in the trace. Where the allocator fails, it returns \<^verbatim>\<open>-ENOMEM\<close> and the
  idle list is empty (the counter is 1 there too).
\<close>

theorem create_seeds_pool:
  "(\<forall>p ps. heap_next s = p # ps \<and> p \<noteq> NULL \<longrightarrow>
      cifsd_crypto_create h s =
        (0, s\<lparr>avail_ctx := 1, idle_ctx := [p], heap_next := ps,
               ctx_mem := (ctx_mem s)(p \<mapsto> empty_ctx h),
               trace := trace s @ [Cifsd_alloc p]\<rparr>))
   \<and> (heap_next s = [] \<or> hd (heap_next s) = NULL \<longrightarrow>
        fst (cifsd_crypto_create h s) = - ENOMEM
        \<and> idle_ctx (snd (cifsd_crypto_create h s)) = []
        \<and> avail_ctx (snd (cifsd_crypto_create h s)) = 1
        \<and> ctx_mem (snd (cifsd_crypto_create h s)) = ctx_mem s)"
proof (intro conjI allI impI)
  fix p ps
  assume "heap_next s = p # ps \<and> p \<noteq> NULL"
  then show "cifsd_crypto_create h s =
        (0, s\<lparr>avail_ctx := 1, idle_ctx := [p], heap_next := ps,
               ctx_mem := (ctx_mem s)(p \<mapsto> empty_ctx h),
               trace := trace s @ [Cifsd_alloc p]\<rparr>)"
    by (simp add: cifsd_crypto_create_def ctx_alloc_def cifsd_alloc_ok)
next
  let ?s1 = "s\<lparr>idle_ctx := [], avail_ctx := 1\<rparr>"
  assume a: "heap_next s = [] \<or> hd (heap_next s) = NULL"
  then have b: "heap_next ?s1 = [] \<or> hd (heap_next ?s1) = NULL" by simp
  obtain r s2 where c: "cifsd_alloc h ?s1 = (r, s2)" by (cases "cifsd_alloc h ?s1")
  from cifsd_alloc_fail [OF b, of h] c
  have d: "r = NULL" "idle_ctx s2 = []" "avail_ctx s2 = 1" "ctx_mem s2 = ctx_mem s"
    by simp_all
  from c d show "fst (cifsd_crypto_create h s) = - ENOMEM"
    by (simp add: cifsd_crypto_create_def ctx_alloc_def)
  from c d show "idle_ctx (snd (cifsd_crypto_create h s)) = []"
    by (simp add: cifsd_crypto_create_def ctx_alloc_def)
  from c d show "avail_ctx (snd (cifsd_crypto_create h s)) = 1"
    by (simp add: cifsd_crypto_create_def ctx_alloc_def)
  from c d show "ctx_mem (snd (cifsd_crypto_create h s)) = ctx_mem s"
    by (simp add: cifsd_crypto_create_def ctx_alloc_def)
qed

text \<open>
  Claim C9, at \<open>example_state\<close> and at the same state with no block left.
\<close>

theorem create_seeds_pool_witness:
  "cifsd_crypto_create example_h example_state =
     (0, example_state\<lparr>avail_ctx := 1, idle_ctx := [200], heap_next := [300],
            ctx_mem := (ctx_mem example_state)(200 \<mapsto> empty_ctx example_h),
            trace := [Cifsd_alloc 200]\<rparr>)
   \<and> fst (cifsd_crypto_create example_h (example_state\<lparr>heap_next := []\<rparr>)) = - ENOMEM
   \<and> idle_ctx (snd (cifsd_crypto_create example_h (example_state\<lparr>heap_next := []\<rparr>))) = []"
  using create_seeds_pool [of example_state example_h]
    create_seeds_pool [of "example_state\<lparr>heap_next := []\<rparr>" example_h]
  by (simp add: example_state_def NULL_def)

subsection \<open>\<^verbatim>\<open>cifsd_crypto_destroy\<close>\<close>

text \<open>
  Claim C10. On a pool whose idle contexts are live, distinct and not \<^verbatim>\<open>NULL\<close>,
  \<^verbatim>\<open>cifsd_crypto_destroy\<close> returns with the idle list empty, every context that was
  idle freed with its handles (and no other), and the counter unchanged. A release
  after it pools or frees by that unchanged counter: it pools when the counter the pool
  had before the shutdown is at most \<^verbatim>\<open>num_online_cpus()\<close>, and otherwise
  decrements it and frees.
\<close>

theorem destroy_keeps_counter:
  assumes "distinct (idle_ctx s)" and "NULL \<notin> set (idle_ctx s)"
    and "set (idle_ctx s) \<subseteq> dom (ctx_mem s)"
  shows "\<exists>s'. cifsd_crypto_destroy s = Some s'
           \<and> idle_ctx s' = []
           \<and> avail_ctx s' = avail_ctx s
           \<and> ctx_mem s' = ctx_mem s |` (- set (idle_ctx s))
           \<and> trace s' = trace s @ destroy_frees (ctx_mem s) (idle_ctx s)
           \<and> (\<forall>n ctx. ctx \<noteq> NULL \<longrightarrow>
                 cifsd_release_crypto_ctx n ctx s' =
                   (if avail_ctx s \<le> n
                    then Some (s'\<lparr>idle_ctx := [ctx], trace := trace s' @ [Wake_up]\<rparr>)
                    else ctx_free ctx (s'\<lparr>avail_ctx := avail_ctx s - 1\<rparr>)))"
  using destroy_closed_form [OF refl assms]
  by (simp add: cifsd_release_crypto_ctx_def emit_def)

text \<open>
  Claim C10, at a pool with two idle contexts and a third one checked out, the
  counter at 3: after the shutdown the counter is still 3, and with two processors the
  release of the third context frees it.
\<close>

theorem destroy_keeps_counter_witness:
  "\<exists>s'. cifsd_crypto_destroy example_state2 = Some s'
      \<and> idle_ctx s' = [] \<and> avail_ctx s' = 3
      \<and> trace s' = [Cifsd_free 100, Crypto_free_aead (Tfm 9), Cifsd_free 200]
      \<and> cifsd_release_crypto_ctx 2 300 s' = ctx_free 300 (s'\<lparr>avail_ctx := 2\<rparr>)"
  using destroy_keeps_counter [of example_state2]
  by (auto simp: example_state2_def NULL_def destroy_frees_def shash_frees_def aead_frees_def
      empty_ctx_def example_h_def)

end
